theory Spec2Isabelle
  imports Complex_Main "HOL-Library.Word"
begin

section \<open>NumPy and pandas operations used by the code\<close>

text \<open>
  The exceptions the modelled code can raise. A function that can raise returns
  \<open>error + 'a\<close>, with \<open>Inl\<close> for the exception.
\<close>

datatype error = TypeError | ValueError | IndexError | AssertionError

text \<open>
  \<open>np.unique(v)\<close>: the distinct values of \<open>v\<close> in ascending order. With
  \<open>return_inverse=True\<close> it also returns, for every element of \<open>v\<close>, its position in
  that sorted array.
\<close>

definition np_unique :: "'a::linorder list \<Rightarrow> 'a list" where
  "np_unique v = sort (remdups v)"

fun index_of :: "'a list \<Rightarrow> 'a \<Rightarrow> nat" where
  "index_of [] x = 0"
| "index_of (y # ys) x = (if x = y then 0 else Suc (index_of ys x))"

definition unique_inverse :: "'a::linorder list \<Rightarrow> nat list" where
  "unique_inverse v = map (index_of (np_unique v)) v"

text \<open>
  \<open>.astype(np.int32)\<close>: NumPy casts without a range check, keeping the low 32 bits
  as a signed value. The index array of \<open>transform\<close> holds floats as soon as one
  NaN was filled, and how a float outside the range of \<open>int32\<close> is cast depends on
  the platform; the model takes the same wrap, and what is proved about the
  arrays \<open>transform\<close> returns is stated for indices inside the range.
\<close>

definition astype_int32 :: "int \<Rightarrow> int" where
  "astype_int32 x = sint (word_of_int x :: 32 word)"

text \<open>
  \<open>np.array(columns)\<close> on a list of sequences raises \<open>ValueError\<close> when the
  sequences differ in length; otherwise \<open>.T\<close> turns the list of columns into
  the list of rows.
\<close>

fun ragged :: "'a list list \<Rightarrow> bool" where
  "ragged [] = False"
| "ragged (c # cs) = list_ex (\<lambda>d. length d \<noteq> length c) cs"

definition np_array_T :: "'a list list \<Rightarrow> error + 'a list list" where
  "np_array_T cols = (if ragged cols then Inl ValueError else Inr (transpose cols))"

text \<open>\<open>d.update(pairs)\<close> on a dict: later pairs overwrite earlier ones.\<close>

fun dict_update :: "('k \<rightharpoonup> 'v) \<Rightarrow> ('k \<times> 'v) list \<Rightarrow> ('k \<rightharpoonup> 'v)" where
  "dict_update m [] = m"
| "dict_update m ((k, v) # kvs) = dict_update (m(k \<mapsto> v)) kvs"

text \<open>
  \<open>defaultdict(dict)\<close>: reading a missing key yields a fresh empty dict and
  stores it under that key.
\<close>

definition defaultdict_get :: "('k \<rightharpoonup> ('a \<rightharpoonup> 'v)) \<Rightarrow> 'k \<Rightarrow> ('a \<rightharpoonup> 'v)" where
  "defaultdict_get d k = (case d k of None \<Rightarrow> Map.empty | Some m \<Rightarrow> m)"

definition defaultdict_touch :: "('k \<rightharpoonup> ('a \<rightharpoonup> 'v)) \<Rightarrow> 'k \<Rightarrow> ('k \<rightharpoonup> ('a \<rightharpoonup> 'v))" where
  "defaultdict_touch d k = (case d k of None \<Rightarrow> d(k \<mapsto> Map.empty) | Some m \<Rightarrow> d)"

section \<open>FeatureBuilder (dataset/preprocessing.py)\<close>

text \<open>
  The builder object. \<open>n_users\<close> and \<open>n_items\<close> default to \<open>None\<close>. The attributes
  \<open>total_count\<close>, \<open>val_index_dict\<close> and \<open>feature_size\<close> are created by \<open>fit\<close>, which
  overwrites all three before it can raise; \<open>transform\<close> is modelled on builders
  that \<open>fit\<close> has been called on. Column mappings are Python dicts iterated in
  insertion order and are modelled as association lists; raw categorical values
  are of any linearly ordered type, numerical values are reals (the rounding of
  \<open>astype(np.float32)\<close> on the value array is not modelled).
\<close>

record 'a FeatureBuilder =
  value_sharing :: bool
  include_user_item :: bool
  n_users :: "int option"
  n_items :: "int option"
  total_count :: int
  val_index_dict :: "string \<rightharpoonup> ('a \<rightharpoonup> int)"
  feature_size :: int

definition FeatureBuilder_init :: "bool \<Rightarrow> bool \<Rightarrow> int option \<Rightarrow> int option \<Rightarrow> 'a FeatureBuilder" where
  "FeatureBuilder_init vs iui nu ni =
     \<lparr>value_sharing = vs, include_user_item = iui, n_users = nu, n_items = ni,
      total_count = 0, val_index_dict = Map.empty, feature_size = 0\<rparr>"

text \<open>The loop over \<open>numerical_features.items()\<close> of \<open>fit\<close> (lines 20-23).\<close>

fun fit_numerical :: "int \<Rightarrow> (string \<times> real list) list \<Rightarrow> int \<Rightarrow> int list list \<Rightarrow> real list list
    \<Rightarrow> int \<times> int list list \<times> real list list" where
  "fit_numerical train_size [] tc fi fv = (tc, fi, fv)"
| "fit_numerical train_size ((k, v) # rest) tc fi fv =
     fit_numerical train_size rest (tc + 1) (fi @ [replicate (nat train_size) tc]) (fv @ [v])"

text \<open>The loop over \<open>categorical_features.items()\<close> of \<open>fit\<close> (lines 26-33).\<close>

fun fit_categorical :: "int \<Rightarrow> (string \<times> 'a::linorder list) list \<Rightarrow> int
    \<Rightarrow> (string \<rightharpoonup> ('a \<rightharpoonup> int)) \<Rightarrow> int list list \<Rightarrow> real list list
    \<Rightarrow> int \<times> (string \<rightharpoonup> ('a \<rightharpoonup> int)) \<times> int list list \<times> real list list" where
  "fit_categorical train_size [] tc d fi fv = (tc, d, fi, fv)"
| "fit_categorical train_size ((k, v) # rest) tc d fi fv =
     (let unique_vals = np_unique v;
          indices = map (\<lambda>j. int j + tc) (unique_inverse v);
          d' = d(k \<mapsto> dict_update (defaultdict_get d k) (zip unique_vals (np_unique indices)))
      in fit_categorical train_size rest (tc + int (length unique_vals)) d'
           (fi @ [indices]) (fv @ [replicate (nat train_size) 1]))"

text \<open>Lines 44-46: both column lists become arrays, are transposed and cast.\<close>

definition fit_arrays :: "int list list \<Rightarrow> real list list \<Rightarrow> int
    \<Rightarrow> error + (int list list \<times> real list list \<times> int)" where
  "fit_arrays fi fv fs =
     (case np_array_T fi of Inl e \<Rightarrow> Inl e
      | Inr indices \<Rightarrow>
         (case np_array_T fv of Inl e \<Rightarrow> Inl e
          | Inr values \<Rightarrow> Inr (map (map astype_int32) indices, values, fs)))"

text \<open>
  \<open>fit\<close> returns the builder as the call leaves it together with either the
  exception or the triple (index array, value array, \<open>feature_size\<close>). Adding an
  integer to \<open>None\<close> raises \<open>TypeError\<close>.
\<close>

definition fit :: "'a::linorder FeatureBuilder \<Rightarrow> (string \<times> 'a list) list \<Rightarrow> (string \<times> real list) list
    \<Rightarrow> int \<Rightarrow> int list option \<Rightarrow> int list option
    \<Rightarrow> 'a FeatureBuilder \<times> (error + (int list list \<times> real list list \<times> int))" where
  "fit self categorical_features numerical_features train_size user_features item_features =
     (case fit_numerical train_size numerical_features 0 [] [] of (tc0, fi0, fv0) \<Rightarrow>
      case fit_categorical train_size categorical_features tc0 Map.empty fi0 fv0 of (tc, d, fi, fv) \<Rightarrow>
      let self1 = self\<lparr>total_count := tc, val_index_dict := d, feature_size := tc\<rparr> in
      if include_user_item self then
        (case user_features of None \<Rightarrow> (self1, Inl TypeError)
         | Some uf \<Rightarrow>
        (case n_users self of None \<Rightarrow> (self1, Inl TypeError)
         | Some nu \<Rightarrow>
        let self2 = self1\<lparr>feature_size := tc + nu\<rparr> in
        (case item_features of None \<Rightarrow> (self2, Inl TypeError)
         | Some itf \<Rightarrow>
        (case n_items self of None \<Rightarrow> (self2, Inl TypeError)
         | Some ni \<Rightarrow>
        let self3 = self2\<lparr>feature_size := tc + nu + ni\<rparr> in
        (self3, fit_arrays (fi @ [map (\<lambda>u. u + tc) uf, map (\<lambda>i. i + (tc + nu)) itf])
                  (fv @ [replicate (nat train_size) 1, replicate (nat train_size) 1])
                  (tc + nu + ni))))))
      else (self1, fit_arrays fi fv tc))"

text \<open>
  pandas: \<open>pd.Series(v).map(m)\<close> with a dict \<open>m\<close> looks every element up and
  yields NaN (here \<open>None\<close>) for a missing key; \<open>fillna(x)\<close> replaces every NaN by
  \<open>x\<close>.
\<close>

definition series_map :: "('a \<rightharpoonup> int) \<Rightarrow> 'a list \<Rightarrow> int option list" where
  "series_map m v = map m v"

definition fillna :: "int \<Rightarrow> int option list \<Rightarrow> int list" where
  "fillna x s = map (\<lambda>y. case y of None \<Rightarrow> x | Some i \<Rightarrow> i) s"

text \<open>The loop over \<open>test_num_feat.items()\<close> of \<open>transform\<close> (lines 53-56).\<close>

fun transform_numerical :: "int \<Rightarrow> (string \<times> real list) list \<Rightarrow> int \<Rightarrow> int list list \<Rightarrow> real list list
    \<Rightarrow> int \<times> int list list \<times> real list list" where
  "transform_numerical test_size [] tc fi fv = (tc, fi, fv)"
| "transform_numerical test_size ((k, v) # rest) tc fi fv =
     transform_numerical test_size rest (tc + 1) (fi @ [replicate (nat test_size) tc]) (fv @ [v])"

text \<open>
  The loop over \<open>test_cat_feat.items()\<close> of \<open>transform\<close> (lines 58-62). Reading
  \<open>self.val_index_dict[k]\<close> goes through the \<open>defaultdict\<close>.
\<close>

fun transform_categorical :: "int \<Rightarrow> int \<Rightarrow> (string \<times> 'a list) list
    \<Rightarrow> (string \<rightharpoonup> ('a \<rightharpoonup> int)) \<Rightarrow> int list list \<Rightarrow> real list list
    \<Rightarrow> (string \<rightharpoonup> ('a \<rightharpoonup> int)) \<times> int list list \<times> real list list" where
  "transform_categorical test_size fs [] d fi fv = (d, fi, fv)"
| "transform_categorical test_size fs ((k, v) # rest) d fi fv =
     (let indices = fillna fs (series_map (defaultdict_get d k) v)
      in transform_categorical test_size fs rest (defaultdict_touch d k)
           (fi @ [indices]) (fv @ [replicate (nat test_size) 1]))"

definition transform_arrays :: "int list list \<Rightarrow> real list list
    \<Rightarrow> error + (int list list \<times> real list list)" where
  "transform_arrays fi fv =
     (case np_array_T fi of Inl e \<Rightarrow> Inl e
      | Inr indices \<Rightarrow>
         (case np_array_T fv of Inl e \<Rightarrow> Inl e
          | Inr values \<Rightarrow> Inr (map (map astype_int32) indices, values)))"

definition transform :: "'a FeatureBuilder \<Rightarrow> (string \<times> 'a list) list \<Rightarrow> (string \<times> real list) list
    \<Rightarrow> int \<Rightarrow> int list option \<Rightarrow> int list option
    \<Rightarrow> 'a FeatureBuilder \<times> (error + (int list list \<times> real list list))" where
  "transform self test_cat_feat test_num_feat test_size test_user_features test_item_features =
     (case transform_numerical test_size test_num_feat 0 [] [] of (test_total_count, fi0, fv0) \<Rightarrow>
      case transform_categorical test_size (feature_size self) test_cat_feat
             (val_index_dict self) fi0 fv0 of (d, fi, fv) \<Rightarrow>
      let self1 = self\<lparr>val_index_dict := d\<rparr> in
      if include_user_item self then
        (case test_user_features of None \<Rightarrow> (self1, Inl TypeError)
         | Some uf \<Rightarrow>
        (case test_item_features of None \<Rightarrow> (self1, Inl TypeError)
         | Some itf \<Rightarrow>
        (case n_users self of None \<Rightarrow> (self1, Inl TypeError)
         | Some nu \<Rightarrow>
        (self1, transform_arrays
                  (fi @ [map (\<lambda>u. u + total_count self) uf,
                         map (\<lambda>i. i + total_count self + nu) itf])
                  (fv @ [replicate (nat test_size) 1, replicate (nat test_size) 1])))))
      else (self1, transform_arrays fi fv))"

section \<open>NegativeSamplingFeat (distributed/new_features/utils/samplingNEW.py)\<close>

text \<open>
  Integer indexing of a NumPy array: an index \<open>i\<close> with \<open>-n \<le> i < 0\<close> counts from
  the end, an index outside \<open>[-n, n)\<close> raises \<open>IndexError\<close>. Indexing with an
  integer array (\<open>a[idx]\<close>, \<open>np.take\<close>) does this for every element of \<open>idx\<close>.
\<close>

definition np_index :: "'a list \<Rightarrow> int \<Rightarrow> error + 'a" where
  "np_index xs i =
     (let n = int (length xs)
      in if 0 \<le> i \<and> i < n then Inr (xs ! nat i)
         else if - n \<le> i \<and> i < 0 then Inr (xs ! nat (n + i))
         else Inl IndexError)"

fun sequence :: "(error + 'a) list \<Rightarrow> error + 'a list" where
  "sequence [] = Inr []"
| "sequence (x # xs) =
     (case x of Inl e \<Rightarrow> Inl e
      | Inr y \<Rightarrow> (case sequence xs of Inl e \<Rightarrow> Inl e | Inr ys \<Rightarrow> Inr (y # ys)))"

definition fancy_index :: "'a list \<Rightarrow> int list \<Rightarrow> error + 'a list" where
  "fancy_index xs idx = sequence (map (np_index xs) idx)"

text \<open>\<open>np.take(a, cols, axis=1)\<close> and \<open>a[:, cols]\<close> on an array given by its rows.\<close>

definition np_take_cols :: "'a list list \<Rightarrow> int list \<Rightarrow> error + 'a list list" where
  "np_take_cols rows cols = sequence (map (\<lambda>row. fancy_index row cols) rows)"

text \<open>
  \<open>np.repeat(a, m, axis=0)\<close> repeats every row \<open>m\<close> times in place; a negative
  count raises \<open>ValueError\<close>.
\<close>

definition np_repeat_rows :: "'a list \<Rightarrow> int \<Rightarrow> error + 'a list" where
  "np_repeat_rows rows m =
     (if m < 0 then Inl ValueError else Inr (concat (map (replicate (nat m)) rows)))"

text \<open>
  \<open>np.argsort(xs)\<close>: the positions of \<open>xs\<close> in ascending order of the values. The
  model breaks ties by position; the code only sorts column indices that are
  pairwise different.
\<close>

definition np_argsort :: "int list \<Rightarrow> nat list" where
  "np_argsort xs = map snd (sort_key fst (zip xs [0..<length xs]))"

text \<open>\<open>np.concatenate([a, b], axis=-1)\<close> on two arrays with the same number of rows.\<close>

definition np_concatenate_cols :: "'a list list \<Rightarrow> 'a list list \<Rightarrow> 'a list list" where
  "np_concatenate_cols a b = map (\<lambda>(x, y). x @ y) (zip a b)"

text \<open>
  The slice assignment \<open>xs[i::step] = v\<close> for a positive step, written as the loop
  over the positions \<open>i, i + step, i + 2 step, \<dots>\<close> below \<open>len(xs)\<close>.
\<close>

function slice_assign :: "nat \<Rightarrow> nat \<Rightarrow> 'a \<Rightarrow> 'a list \<Rightarrow> 'a list" where
  "slice_assign i step v xs =
     (if step = 0 \<or> length xs \<le> i then xs
      else slice_assign (i + step) step v (xs[i := v]))"
  by pat_completeness auto
termination
  by (relation "measure (\<lambda>(i, step, v, xs). length xs - i)") auto

declare slice_assign.simps [simp del]

text \<open>
  The classes of \<open>self.dataset\<close> and \<open>self.data_info\<close> are not among the source
  files; the attributes the sampler reads are the fields of the two records.
  \<open>dataset_len\<close> is \<open>len(self.dataset)\<close>; \<open>train_user_consumed\<close> gives every user
  index its Consumed Set; \<open>user_sparse_col\<close> and the three fields like it hold
  the \<open>.index\<close> list of the column group; arrays are lists of rows.
\<close>

record dataset =
  dataset_len :: nat
  user_indices :: "int list"
  item_indices :: "int list"
  sparse_indices :: "int list list"
  dense_values :: "real list list"
  train_user_consumed :: "int \<Rightarrow> int set"

record data_info =
  n_items_info :: int
  user_sparse_col :: "int list"
  item_sparse_col :: "int list"
  user_dense_col :: "int list"
  item_dense_col :: "int list"
  item_sparse_unique :: "int list list"
  item_dense_unique :: "real list list"

record NegativeSamplingFeat =
  dataset :: dataset
  data_info :: data_info
  num_neg :: int
  batch_size :: int

text \<open>
  NumPy's global random generator is not among the source files either. One
  run of \<open>__call__\<close> seeds it, draws one permutation and then a sequence of
  integers; \<open>permutation rng seed n\<close> is the array
  \<open>np.random.permutation(range(n))\<close> returns in the run with that seed, and
  \<open>randint rng seed k\<close> is what the \<open>k\<close>-th call \<open>np.random.randint(0, n_items)\<close> of
  the run returns. The theorems assume what NumPy guarantees: the permutation
  is a permutation of \<open>0..n-1\<close>, and every integer drawn lies in \<open>[0, n_items)\<close>.
\<close>

record np_random =
  permutation :: "int \<Rightarrow> nat \<Rightarrow> int list"
  randint :: "int \<Rightarrow> nat \<Rightarrow> int"

text \<open>
  Lines 42-44: the candidate \<open>item_neg\<close> is redrawn while it is in the consumed
  set. \<open>k\<close> counts the integers drawn so far. The loop need not terminate: the
  result is \<open>None\<close> when it runs forever.
\<close>

partial_function (option) reject_loop :: "(nat \<Rightarrow> int) \<Rightarrow> int set \<Rightarrow> nat \<Rightarrow> int \<Rightarrow> (int \<times> nat) option" where
  "reject_loop draw consumed k item_neg =
     (if item_neg \<in> consumed then reject_loop draw consumed (Suc k) (draw k)
      else Some (item_neg, k))"

text \<open>Lines 41-45: the loop \<open>for _ in range(self.num_neg)\<close> for one interaction.\<close>

fun sample_negatives :: "(nat \<Rightarrow> int) \<Rightarrow> int set \<Rightarrow> nat \<Rightarrow> nat \<Rightarrow> (int list \<times> nat) option" where
  "sample_negatives draw consumed 0 k = Some ([], k)"
| "sample_negatives draw consumed (Suc m) k =
     (case reject_loop draw consumed (Suc k) (draw k) of None \<Rightarrow> None
      | Some (item_neg, k') \<Rightarrow>
         (case sample_negatives draw consumed m k' of None \<Rightarrow> None
          | Some (negs, k'') \<Rightarrow> Some (item_neg # negs, k'')))"

text \<open>Lines 39-45: the loop over \<open>zip(user_indices, item_indices)\<close>.\<close>

fun sample_pairs :: "(nat \<Rightarrow> int) \<Rightarrow> (int \<Rightarrow> int set) \<Rightarrow> nat \<Rightarrow> (int \<times> int) list \<Rightarrow> nat
    \<Rightarrow> (int list \<times> nat) option" where
  "sample_pairs draw consumed m [] k = Some ([], k)"
| "sample_pairs draw consumed m ((u, i) # rest) k =
     (case sample_negatives draw (consumed u) m k of None \<Rightarrow> None
      | Some (negs, k') \<Rightarrow>
         (case sample_pairs draw consumed m rest k' of None \<Rightarrow> None
          | Some (items, k'') \<Rightarrow> Some (i # negs @ items, k'')))"

text \<open>
  \<open>sample_items\<close>. \<open>np.random.randint(0, n_items)\<close> raises \<open>ValueError\<close> when
  \<open>n_items \<le> 0\<close>, which happens at the first draw, that is, when there is an
  interaction and \<open>num_neg \<ge> 1\<close>. The result is \<open>None\<close> when a rejection loop
  runs forever.
\<close>

definition sample_items :: "(nat \<Rightarrow> int) \<Rightarrow> NegativeSamplingFeat \<Rightarrow> (error + int list) option" where
  "sample_items draw self =
     (let n_items = n_items_info (data_info self);
          pairs = zip (user_indices (dataset self)) (item_indices (dataset self))
      in if n_items \<le> 0 \<and> pairs \<noteq> [] \<and> 1 \<le> num_neg self then Some (Inl ValueError)
         else (case sample_pairs draw (train_user_consumed (dataset self)) (nat (num_neg self)) pairs 0 of
                 None \<Rightarrow> None
               | Some (item_indices_sampled, k) \<Rightarrow> Some (Inr item_indices_sampled)))"

text \<open>
  \<open>_sparse_negative_sampling\<close>. \<open>item_indices_sampled\<close> is \<open>np.array\<close> of a Python
  list; for the empty list that array has dtype \<open>float64\<close>, and indexing with it
  raises \<open>IndexError\<close>.
\<close>

definition sparse_negative_sampling :: "NegativeSamplingFeat \<Rightarrow> int list \<Rightarrow> error + int list list" where
  "sparse_negative_sampling self item_indices_sampled =
     (let user_sparse_col = user_sparse_col (data_info self) in
      case np_take_cols (sparse_indices (dataset self)) user_sparse_col of Inl e \<Rightarrow> Inl e
      | Inr user_sparse_indices \<Rightarrow>
      (case np_repeat_rows user_sparse_indices (num_neg self + 1) of Inl e \<Rightarrow> Inl e
      | Inr user_sparse_sampled \<Rightarrow>
      let item_sparse_col = item_sparse_col (data_info self) in
      (case (if item_indices_sampled = [] then Inl IndexError
             else fancy_index (item_sparse_unique (data_info self)) item_indices_sampled) of
         Inl e \<Rightarrow> Inl e
      | Inr item_sparse_sampled \<Rightarrow>
      if length user_sparse_sampled \<noteq> length item_sparse_sampled then Inl AssertionError
      else
        let orig_cols = user_sparse_col @ item_sparse_col;
            col_reindex = map (\<lambda>j. [0..<length orig_cols] ! j) (np_argsort orig_cols)
        in np_take_cols (np_concatenate_cols user_sparse_sampled item_sparse_sampled)
             (map int col_reindex))))"

text \<open>\<open>_dense_negative_sampling\<close>: the same steps on the dense columns.\<close>

definition dense_negative_sampling :: "NegativeSamplingFeat \<Rightarrow> int list \<Rightarrow> error + real list list" where
  "dense_negative_sampling self item_indices_sampled =
     (let user_dense_col = user_dense_col (data_info self) in
      case np_take_cols (dense_values (dataset self)) user_dense_col of Inl e \<Rightarrow> Inl e
      | Inr user_dense_values \<Rightarrow>
      (case np_repeat_rows user_dense_values (num_neg self + 1) of Inl e \<Rightarrow> Inl e
      | Inr user_dense_sampled \<Rightarrow>
      let item_dense_col = item_dense_col (data_info self) in
      (case (if item_indices_sampled = [] then Inl IndexError
             else fancy_index (item_dense_unique (data_info self)) item_indices_sampled) of
         Inl e \<Rightarrow> Inl e
      | Inr item_dense_sampled \<Rightarrow>
      if length user_dense_sampled \<noteq> length item_dense_sampled then Inl AssertionError
      else
        let orig_cols = user_dense_col @ item_dense_col;
            col_reindex = map (\<lambda>j. [0..<length orig_cols] ! j) (np_argsort orig_cols)
        in np_take_cols (np_concatenate_cols user_dense_sampled item_dense_sampled)
             (map int col_reindex))))"

text \<open>
  \<open>_label_negative_sampling\<close>. \<open>np.zeros\<close> raises \<open>ValueError\<close> on a negative length
  and a slice step of zero raises \<open>ValueError\<close>. With a negative \<open>factor\<close> the
  array can only be empty, and the slice assignment changes nothing.
\<close>

definition label_negative_sampling :: "NegativeSamplingFeat \<Rightarrow> error + real list" where
  "label_negative_sampling self =
     (let factor = num_neg self + 1;
          total_length = int (dataset_len (dataset self)) * factor
      in if total_length < 0 then Inl ValueError
         else let labels = replicate (nat total_length) 0
              in if factor = 0 then Inl ValueError
                 else if factor < 0 then Inr labels
                 else Inr (slice_assign 0 (nat factor) 1 labels))"

text \<open>
  \<open>__call__\<close>. The result is \<open>None\<close> when \<open>sample_items\<close> does not terminate; the
  dense array is \<open>None\<close> when \<open>dense\<close> is false (the code then returns a pair).
\<close>

definition call :: "np_random \<Rightarrow> NegativeSamplingFeat \<Rightarrow> int \<Rightarrow> bool \<Rightarrow> bool
    \<Rightarrow> (error + (int list list \<times> real list list option \<times> real list)) option" where
  "call rng self seed dense random =
     (let total_length = int (dataset_len (dataset self)) * (num_neg self + 1);
          random_mask = permutation rng seed (nat total_length)
      in case label_negative_sampling self of Inl e \<Rightarrow> Some (Inl e)
      | Inr label0 \<Rightarrow>
      (case (if random then fancy_index label0 random_mask else Inr label0) of Inl e \<Rightarrow> Some (Inl e)
      | Inr label_sampled \<Rightarrow>
      (case sample_items (randint rng seed) self of None \<Rightarrow> None
      | Some (Inl e) \<Rightarrow> Some (Inl e)
      | Some (Inr item_indices_sampled) \<Rightarrow>
      (case sparse_negative_sampling self item_indices_sampled of Inl e \<Rightarrow> Some (Inl e)
      | Inr sparse0 \<Rightarrow>
      (case (if random then fancy_index sparse0 random_mask else Inr sparse0) of Inl e \<Rightarrow> Some (Inl e)
      | Inr sparse_sampled \<Rightarrow>
      if dense then
        (case dense_negative_sampling self item_indices_sampled of Inl e \<Rightarrow> Some (Inl e)
         | Inr dense0 \<Rightarrow>
        (case (if random then fancy_index dense0 random_mask else Inr dense0) of Inl e \<Rightarrow> Some (Inl e)
         | Inr dense_sampled \<Rightarrow> Some (Inr (sparse_sampled, Some dense_sampled, label_sampled))))
      else Some (Inr (sparse_sampled, None, label_sampled)))))))"

section \<open>Example data for the concrete runs\<close>

text \<open>
  Two interactions \<open>(user 0, item 1)\<close> and \<open>(user 1, item 0)\<close> over three items,
  one negative per positive. In the sparse block the item column is column 0
  and the user column is column 1; in the dense block it is the other way
  round. The generator of the run returns the permutation \<open>[2, 0, 3, 1]\<close> and
  draws \<open>1, 2, 0, 2, 2, \<dots>\<close>.
\<close>

definition example_dataset :: dataset where
  "example_dataset =
     \<lparr>dataset_len = 2, user_indices = [0, 1], item_indices = [1, 0],
      sparse_indices = [[31, 10], [30, 11]], dense_values = [[0.5, 7], [1.5, 6]],
      train_user_consumed = (\<lambda>u. if u = 0 then {1} else {0})\<rparr>"

definition example_data_info :: data_info where
  "example_data_info =
     \<lparr>n_items_info = 3, user_sparse_col = [1], item_sparse_col = [0],
      user_dense_col = [0], item_dense_col = [1],
      item_sparse_unique = [[30], [31], [32]], item_dense_unique = [[6], [7], [8]]\<rparr>"

definition example_sampler :: NegativeSamplingFeat where
  "example_sampler =
     \<lparr>dataset = example_dataset, data_info = example_data_info, num_neg = 1, batch_size = 64\<rparr>"

definition example_rng :: np_random where
  "example_rng =
     \<lparr>permutation = (\<lambda>seed n. [2, 0, 3, 1]),
      randint = (\<lambda>seed k. if k = 0 then 1 else if k = 2 then 0 else 2)\<rparr>"

section \<open>Properties of the NumPy and pandas operations\<close>

subsection \<open>np.unique\<close>

lemma np_unique_props:
  "set (np_unique v) = set v" "distinct (np_unique v)" "sorted (np_unique v)"
  "length (np_unique v) = card (set v)"
  by (simp_all add: np_unique_def length_remdups_card_conv)

lemma np_unique_eq: "np_unique v = sorted_list_of_set (set v)"
  by (simp add: np_unique_def sorted_list_of_set_sort_remdups)

lemma index_of_less: "x \<in> set xs \<Longrightarrow> index_of xs x < length xs"
  by (induction xs) auto

lemma nth_index_of: "x \<in> set xs \<Longrightarrow> xs ! index_of xs x = x"
  by (induction xs) auto

lemma index_of_nth: "distinct xs \<Longrightarrow> i < length xs \<Longrightarrow> index_of xs (xs ! i) = i"
proof (induction xs arbitrary: i)
  case Nil
  then show ?case by simp
next
  case (Cons a xs)
  then show ?case by (cases i) auto
qed

lemma index_of_sorted_card:
  "sorted xs \<Longrightarrow> distinct xs \<Longrightarrow> x \<in> set xs \<Longrightarrow>
   index_of xs x = card {y \<in> set xs. y < x}"
proof (induction xs)
  case Nil
  then show ?case by simp
next
  case (Cons a xs)
  show ?case
  proof (cases "x = a")
    case True
    have "{y \<in> set (a # xs). y < a} = {}"
      using Cons.prems(1) by auto
    then show ?thesis using True by simp
  next
    case False
    then have x: "x \<in> set xs" using Cons.prems(3) by simp
    then have lt: "a < x" using Cons.prems(1,2) False by auto
    have "{y \<in> set (a # xs). y < x} = insert a {y \<in> set xs. y < x}"
      using lt by auto
    moreover have "a \<notin> {y \<in> set xs. y < x}" using Cons.prems(2) by simp
    ultimately have "card {y \<in> set (a # xs). y < x} = Suc (card {y \<in> set xs. y < x})"
      by simp
    then show ?thesis
      using Cons.IH x Cons.prems(1,2) False by simp
  qed
qed

lemma set_unique_inverse: "set (unique_inverse v) = {0..<card (set v)}"
proof -
  let ?u = "np_unique v"
  have "index_of ?u ` set v = {0..<length ?u}"
  proof (intro equalityI subsetI)
    fix j assume "j \<in> index_of ?u ` set v"
    then show "j \<in> {0..<length ?u}"
      using index_of_less [of _ ?u] by (auto simp: np_unique_props)
  next
    fix j assume "j \<in> {0..<length ?u}"
    then have j: "j < length ?u" by simp
    then have "?u ! j \<in> set v" using np_unique_props(1) [of v] nth_mem by blast
    moreover have "index_of ?u (?u ! j) = j"
      using index_of_nth [OF np_unique_props(2) j] .
    ultimately show "j \<in> index_of ?u ` set v" by force
  qed
  then show ?thesis by (simp add: unique_inverse_def np_unique_props)
qed

lemma np_unique_indices:
  "np_unique (map (\<lambda>j. int j + tc) (unique_inverse v)) =
     map (\<lambda>j. int j + tc) [0..<card (set v)]"
proof -
  let ?f = "\<lambda>j. int j + tc"
  have s: "set (map ?f (unique_inverse v)) = set (map ?f [0..<card (set v)])"
    by (simp add: set_unique_inverse)
  have "sorted (map ?f [0..<card (set v)])"
    by (simp add: sorted_map sorted_wrt_iff_nth_less)
  moreover have "distinct (map ?f [0..<card (set v)])"
    by (simp add: distinct_map inj_on_def)
  ultimately show ?thesis
    using s np_unique_props(2,3) [of "map ?f (unique_inverse v)"]
      np_unique_props(1) [of "map ?f (unique_inverse v)"]
    by (metis sorted_distinct_set_unique)
qed

subsection \<open>astype\<close>

lemma astype_int32_small [simp]:
  "astype_int32 0 = 0" "astype_int32 1 = 1"
  "astype_int32 (numeral n) = sint (numeral n :: 32 word)"
  by (simp_all add: astype_int32_def)

lemma astype_int32_id: "- (2 ^ 31) \<le> x \<Longrightarrow> x < 2 ^ 31 \<Longrightarrow> astype_int32 x = x"
  unfolding astype_int32_def by (simp add: sint_sbintrunc' signed_take_bit_int_eq_self)

lemma astype_int32_range: "- (2 ^ 31) \<le> astype_int32 x \<and> astype_int32 x < 2 ^ 31"
  unfolding astype_int32_def
  using sint_ge [of "word_of_int x :: 32 word"] sint_lt [of "word_of_int x :: 32 word"]
  by simp

subsection \<open>Arrays from lists of columns\<close>

lemma ragged_iff: "ragged cols \<longleftrightarrow> (\<exists>c\<in>set cols. length c \<noteq> length (hd cols))"
  by (cases cols) (auto simp: list_ex_iff)

lemma foldr_max_length:
  "\<forall>c\<in>set cols. length c = n \<Longrightarrow> cols \<noteq> [] \<Longrightarrow> foldr (\<lambda>xs. max (length xs)) cols 0 = n"
proof (induction cols)
  case Nil
  then show ?case by simp
next
  case (Cons a cols)
  then show ?case by (cases cols) auto
qed

lemma transpose_regular:
  assumes "\<forall>c\<in>set cols. length c = n" "cols \<noteq> []"
  shows "transpose cols = map (\<lambda>r. map (\<lambda>c. c ! r) cols) [0..<n]"
proof (rule nth_equalityI)
  show len: "length (transpose cols) = length (map (\<lambda>r. map (\<lambda>c. c ! r) cols) [0..<n])"
    using assms by (simp add: length_transpose foldr_max_length)
  fix r assume "r < length (transpose cols)"
  then have r: "r < length (transpose cols)" "r < n" using len by simp_all
  have "filter (\<lambda>ys. r < length ys) cols = cols"
    using assms(1) r(2) by (simp add: filter_id_conv)
  then show "transpose cols ! r = map (\<lambda>r. map (\<lambda>c. c ! r) cols) [0..<n] ! r"
    using r by (simp add: nth_transpose)
qed

lemma np_array_T_nth:
  assumes "np_array_T cols = Inr rows" "c < length cols" "r < length (cols ! c)"
  shows "r < length rows \<and> length (rows ! r) = length cols \<and> rows ! r ! c = cols ! c ! r"
proof -
  have reg: "\<forall>d\<in>set cols. length d = length (hd cols)" and rows: "rows = transpose cols"
    using assms(1) by (auto simp: np_array_T_def ragged_iff split: if_splits)
  have ne: "cols \<noteq> []" using assms(2) by auto
  have "length (cols ! c) = length (hd cols)" using reg assms(2) by simp
  then have r: "r < length (hd cols)" using assms(3) by simp
  show ?thesis
    unfolding rows transpose_regular [OF reg ne] using r assms(2) by simp
qed

lemma np_array_T_rows:
  assumes "np_array_T cols = Inr rows" "r < length rows"
  shows "length (rows ! r) = length cols \<and> (\<forall>c<length cols. r < length (cols ! c) \<and> rows ! r ! c = cols ! c ! r)"
proof -
  have reg: "\<forall>d\<in>set cols. length d = length (hd cols)" and rows: "rows = transpose cols"
    using assms(1) by (auto simp: np_array_T_def ragged_iff split: if_splits)
  have ne: "cols \<noteq> []" using assms(2) rows by auto
  have r: "r < length (hd cols)"
    using assms(2) unfolding rows transpose_regular [OF reg ne] by simp
  show ?thesis
    unfolding rows transpose_regular [OF reg ne] using r reg by simp
qed

lemma not_ragged_same_length: "\<forall>c\<in>set cols. length c = n \<Longrightarrow> \<not> ragged cols"
  by (cases cols) (auto simp: list_ex_iff)

lemma np_array_T_same_length:
  "\<forall>c\<in>set cols. length c = n \<Longrightarrow> cols \<noteq> [] \<Longrightarrow>
   \<exists>rows. np_array_T cols = Inr rows \<and> length rows = n"
  using not_ragged_same_length [of cols n] transpose_regular [of cols n]
  by (simp add: np_array_T_def)

lemma np_array_T_Nil: "np_array_T [] = Inr []"
  by (simp add: np_array_T_def)

subsection \<open>Dictionaries\<close>

lemma dict_update_zip:
  "distinct ks \<Longrightarrow> length vs = length ks \<Longrightarrow>
   dict_update m (zip ks vs) x = (if x \<in> set ks then Some (vs ! index_of ks x) else m x)"
proof (induction ks arbitrary: vs m)
  case Nil
  then show ?case by simp
next
  case (Cons k ks)
  then obtain v vs' where vs: "vs = v # vs'" by (cases vs) auto
  have "dict_update m (zip (k # ks) vs) x = dict_update (m(k \<mapsto> v)) (zip ks vs') x"
    unfolding vs by simp
  also have "\<dots> = (if x \<in> set ks then Some (vs' ! index_of ks x) else (m(k \<mapsto> v)) x)"
    by (rule Cons.IH) (use Cons.prems vs in auto)
  also have "\<dots> = (if x \<in> set (k # ks) then Some (vs ! index_of (k # ks) x) else m x)"
    using Cons.prems(1) unfolding vs by auto
  finally show ?case .
qed

text \<open>The vocabulary stored for one column by one pass of the loop.\<close>

lemma column_vocabulary:
  "dict_update Map.empty (zip (np_unique v) (map (\<lambda>j. int j + tc) [0..<card (set v)])) x =
     (if x \<in> set v then Some (tc + int (card {y \<in> set v. y < x})) else None)"
proof -
  have "x \<in> set v \<Longrightarrow> index_of (np_unique v) x < card (set v)"
    using index_of_less [of x "np_unique v"] by (simp add: np_unique_props)
  then show ?thesis
    using index_of_sorted_card [of "np_unique v" x]
    by (simp add: dict_update_zip np_unique_props)
qed

lemma defaultdict_get_touch: "defaultdict_get (defaultdict_touch d k') k = defaultdict_get d k"
  by (auto simp: defaultdict_get_def defaultdict_touch_def split: option.splits)

lemma defaultdict_get_touched:
  "defaultdict_get (\<lambda>k. if k \<in> A \<and> d k = None then Some Map.empty else d k) k' = defaultdict_get d k'"
  by (auto simp: defaultdict_get_def split: option.splits)

lemma defaultdict_get_Some:
  "defaultdict_get d k x = Some idx \<Longrightarrow> \<exists>m. d k = Some m \<and> m x = Some idx"
  by (auto simp: defaultdict_get_def split: option.splits)

subsection \<open>Indexing, repeating, sorting\<close>

lemma sequence_Inr:
  "sequence xs = Inr ys \<Longrightarrow> length ys = length xs \<and> (\<forall>k<length xs. xs ! k = Inr (ys ! k))"
proof (induction xs arbitrary: ys)
  case Nil
  then show ?case by simp
next
  case (Cons x xs)
  from Cons.prems obtain y ys' where x: "x = Inr y" and s: "sequence xs = Inr ys'" and ys: "ys = y # ys'"
    by (auto split: sum.splits)
  from Cons.IH [OF s] show ?case
    unfolding x ys by (auto simp: nth_Cons')
qed

lemma np_index_nonneg:
  "np_index xs i = Inr y \<Longrightarrow> 0 \<le> i \<Longrightarrow> nat i < length xs \<and> y = xs ! nat i"
  by (auto simp: np_index_def Let_def split: if_splits)

lemma fancy_index_Inr:
  assumes "fancy_index xs idx = Inr ys"
  shows "length ys = length idx"
    and "k < length idx \<Longrightarrow> np_index xs (idx ! k) = Inr (ys ! k)"
  using sequence_Inr [OF assms [unfolded fancy_index_def]] by simp_all

lemma fancy_index_perm:
  assumes "fancy_index xs random_mask = Inr ys" and "sort random_mask = map int [0..<n]"
  shows "length ys = n"
    and "k < n \<Longrightarrow> 0 \<le> random_mask ! k \<and> nat (random_mask ! k) < length xs \<and> ys ! k = xs ! nat (random_mask ! k)"
proof -
  have "length (sort random_mask) = length (map int [0..<n])" using assms(2) by simp
  then have lm: "length random_mask = n" by simp
  then show "length ys = n" using fancy_index_Inr(1) [OF assms(1)] by simp
  show "0 \<le> random_mask ! k \<and> nat (random_mask ! k) < length xs \<and> ys ! k = xs ! nat (random_mask ! k)" if k: "k < n"
  proof -
    have "set random_mask = set (map int [0..<n])" using assms(2) by (metis set_sort)
    moreover have "random_mask ! k \<in> set random_mask" using k lm by simp
    ultimately have nn: "0 \<le> random_mask ! k" by auto
    have "np_index xs (random_mask ! k) = Inr (ys ! k)"
      using fancy_index_Inr(2) [OF assms(1)] k lm by simp
    from np_index_nonneg [OF this nn] nn show ?thesis by simp
  qed
qed

lemma np_take_cols_Inr:
  assumes "np_take_cols rows cols = Inr out"
  shows "length out = length rows"
    and "r < length rows \<Longrightarrow> fancy_index (rows ! r) cols = Inr (out ! r)"
  using sequence_Inr [OF assms [unfolded np_take_cols_def]] by simp_all

lemma nth_concat_replicate:
  "r < length rows * n \<Longrightarrow> concat (map (replicate n) rows) ! r = rows ! (r div n)"
proof (induction rows arbitrary: r)
  case Nil
  then show ?case by simp
next
  case (Cons a rows)
  show ?case
  proof (cases "r < n")
    case True
    then show ?thesis by (simp add: nth_append)
  next
    case False
    then have "r - n < length rows * n" using Cons.prems by simp
    from Cons.IH [OF this] have "concat (map (replicate n) rows) ! (r - n) = rows ! ((r - n) div n)" .
    moreover have "0 < n" using Cons.prems by (cases n) simp_all
    then have "r div n = Suc ((r - n) div n)"
      using False by (simp add: le_div_geq)
    ultimately show ?thesis using False by (simp add: nth_append)
  qed
qed

lemma np_repeat_rows_Inr:
  assumes "np_repeat_rows rows m = Inr out"
  shows "0 \<le> m" and "length out = length rows * nat m"
    and "r < length out \<Longrightarrow> out ! r = rows ! (r div nat m)"
proof -
  from assms show m: "0 \<le> m" and out: "length out = length rows * nat m"
    by (auto simp: np_repeat_rows_def length_concat sum_list_triv comp_def split: if_splits)
  from assms m have "out = concat (map (replicate (nat m)) rows)"
    by (auto simp: np_repeat_rows_def split: if_splits)
  then show "out ! r = rows ! (r div nat m)" if "r < length out"
    using that out by (simp add: nth_concat_replicate)
qed

lemma np_concatenate_cols_nth:
  "length (np_concatenate_cols a b) = min (length a) (length b)"
  "r < length a \<Longrightarrow> r < length b \<Longrightarrow> np_concatenate_cols a b ! r = a ! r @ b ! r"
  by (simp_all add: np_concatenate_cols_def)

lemma length_np_argsort: "length (np_argsort xs) = length xs"
  by (simp add: np_argsort_def)

lemma np_argsort_perm:
  assumes "sort xs = map int [0..<length xs]" and c: "c < length xs"
  shows "np_argsort xs ! c < length xs"
    and "xs ! (np_argsort xs ! c) = int c"
proof -
  let ?n = "length xs"
  let ?zs = "zip xs [0..<?n]"
  let ?S = "sort_key fst ?zs"
  have set_xs: "set xs = set (map int [0..<?n])"
    using assms(1) by (metis set_sort)
  have dist_xs: "distinct xs"
  proof -
    have "distinct (map int [0..<?n])" by (simp add: distinct_map)
    then have "distinct (sort xs)" using assms(1) by simp
    then show ?thesis by simp
  qed
  have fst_zs: "map fst ?zs = xs" by (simp add: map_fst_zip)
  have "sorted (map fst ?S)" by (rule sorted_sort_key)
  moreover have setS: "set (map fst ?S) = set xs"
    using fst_zs by (metis set_map set_sort)
  moreover have "distinct (map fst ?S)"
  proof (rule card_distinct)
    show "card (set (map fst ?S)) = length (map fst ?S)"
      using setS distinct_card [OF dist_xs] by simp
  qed
  moreover have "sorted (map int [0..<?n])"
    by (simp add: sorted_map sorted_wrt_iff_nth_less)
  moreover have "distinct (map int [0..<?n])" by (simp add: distinct_map)
  ultimately have keys: "map fst ?S = map int [0..<?n]"
    using set_xs by (metis sorted_distinct_set_unique)
  have cS: "c < length ?S" using c by simp
  have "?S ! c \<in> set ?zs" using cS by (metis nth_mem set_sort)
  then obtain k where k: "k < ?n" "?S ! c = (xs ! k, k)"
    by (auto simp: set_zip)
  have "map fst ?S ! c = map int [0..<?n] ! c" using keys by simp
  then have "fst (?S ! c) = int c"
    using cS c by simp
  then have "xs ! k = int c" using k(2) by simp
  moreover have "np_argsort xs ! c = k"
    using k(2) cS by (simp add: np_argsort_def)
  ultimately show "np_argsort xs ! c < ?n" "xs ! (np_argsort xs ! c) = int c"
    using k(1) by simp_all
qed

lemma sequence_returns:
  "\<forall>x\<in>set xs. \<exists>y. x = Inr y \<Longrightarrow> \<exists>ys. sequence xs = Inr ys"
proof (induction xs)
  case Nil
  then show ?case by simp
next
  case (Cons x xs)
  then obtain y ys where "x = Inr y" "sequence xs = Inr ys" by auto
  then show ?case by simp
qed

lemma np_index_returns: "0 \<le> i \<Longrightarrow> nat i < length xs \<Longrightarrow> np_index xs i = Inr (xs ! nat i)"
  by (simp add: np_index_def Let_def)

lemma fancy_index_returns:
  assumes "\<forall>i\<in>set idx. 0 \<le> i \<and> nat i < length xs"
  shows "\<exists>ys. fancy_index xs idx = Inr ys"
  unfolding fancy_index_def
  by (rule sequence_returns) (use assms np_index_returns in auto)

lemma np_take_cols_returns:
  assumes "\<forall>row\<in>set rows. length row = w" "\<forall>i\<in>set cols. 0 \<le> i \<and> nat i < w"
  shows "\<exists>out. np_take_cols rows cols = Inr out"
  unfolding np_take_cols_def
proof (rule sequence_returns, intro ballI)
  fix x assume "x \<in> set (map (\<lambda>row. fancy_index row cols) rows)"
  then obtain row where row: "row \<in> set rows" "x = fancy_index row cols" by auto
  have "\<forall>i\<in>set cols. 0 \<le> i \<and> nat i < length row" using assms row(1) by simp
  from fancy_index_returns [OF this] show "\<exists>y. x = Inr y" using row(2) by simp
qed

lemma perm_entries:
  assumes "sort xs = map int [0..<n]" "i \<in> set xs"
  shows "0 \<le> i \<and> nat i < n"
proof -
  have "set xs = set (map int [0..<n])" using assms(1) by (metis set_sort)
  with assms(2) show ?thesis by auto
qed

lemma perm_length:
  assumes "sort xs = map int [0..<n]"
  shows "length xs = n"
proof -
  have "length (sort xs) = length (map int [0..<n])" using assms by simp
  then show ?thesis by simp
qed

lemma set_np_argsort: "set (np_argsort xs) = {0..<length xs}"
proof -
  have "map snd (zip xs [0..<length xs]) = [0..<length xs]"
    by (rule map_snd_zip) simp
  then have "snd ` set (zip xs [0..<length xs]) = set [0..<length xs]"
    by (metis set_map)
  then show ?thesis by (simp add: np_argsort_def)
qed

lemma length_slice_assign: "length (slice_assign i step v xs) = length xs"
proof (induction i step v xs rule: slice_assign.induct)
  case (1 i step v xs)
  show ?case
  proof (cases "step = 0 \<or> length xs \<le> i")
    case True
    then show ?thesis by (subst slice_assign.simps) simp
  next
    case False
    then show ?thesis using "1.IH" by (subst slice_assign.simps) simp
  qed
qed

lemma nth_slice_assign:
  "0 < step \<Longrightarrow> k < length xs \<Longrightarrow>
   slice_assign i step v xs ! k = (if i \<le> k \<and> (k - i) mod step = 0 then v else xs ! k)"
proof (induction i step v xs rule: slice_assign.induct)
  case (1 i step v xs)
  show ?case
  proof (cases "length xs \<le> i")
    case True
    then show ?thesis using "1.prems" by (subst slice_assign.simps) simp
  next
    case False
    then have i: "i < length xs" by simp
    have rec: "slice_assign i step v xs ! k =
        (if i + step \<le> k \<and> (k - (i + step)) mod step = 0 then v else xs[i := v] ! k)"
      using "1.IH" "1.prems" False by (subst slice_assign.simps) simp
    consider (lt) "k < i" | (eq) "k = i" | (gt) "i < k" by linarith
    then show ?thesis
    proof cases
      case lt
      then show ?thesis using rec by simp
    next
      case eq
      then show ?thesis using rec i "1.prems" by simp
    next
      case gt
      show ?thesis
      proof (cases "(k - i) mod step = 0")
        case True
        then have "step dvd k - i" by auto
        then have "step \<le> k - i" using gt by (intro dvd_imp_le) auto
        then have a: "i + step \<le> k" using gt by linarith
        then have "(k - (i + step)) mod step = (k - i) mod step"
          by (metis \<open>step \<le> k - i\<close> diff_diff_left le_mod_geq)
        then show ?thesis using rec a True gt by simp
      next
        case False
        have "(k - (i + step)) mod step \<noteq> 0" if "i + step \<le> k"
        proof -
          have "step \<le> k - i" using that by linarith
          then have "(k - (i + step)) mod step = (k - i) mod step"
            by (metis diff_diff_left le_mod_geq)
          then show ?thesis using False by simp
        qed
        then show ?thesis using rec False gt by auto
      qed
    qed
  qed
qed

section \<open>Properties of fit\<close>

lemma map_upt_Suc_shift: "map f [0..<Suc n] = f 0 # map (\<lambda>j. f (Suc j)) [0..<n]"
  by (simp add: map_upt_Suc del: upt_Suc)

lemma fit_numerical_eq:
  "fit_numerical n nums tc fi fv =
     (tc + int (length nums),
      fi @ map (\<lambda>j. replicate (nat n) (tc + int j)) [0..<length nums],
      fv @ map snd nums)"
proof (induction nums arbitrary: tc fi fv)
  case Nil
  then show ?case by simp
next
  case (Cons a nums)
  obtain k v where a: "a = (k, v)" by (cases a)
  show ?case
    unfolding a by (simp add: Cons.IH map_upt_Suc_shift add.assoc del: upt_Suc)
qed

lemma fit_categorical_acc:
  "fit_categorical n cats tc d fi fv =
     (case fit_categorical n cats tc d [] [] of (tc', d', fi', fv') \<Rightarrow> (tc', d', fi @ fi', fv @ fv'))"
proof (induction cats arbitrary: tc d fi fv)
  case Nil
  then show ?case by simp
next
  case (Cons a cats)
  obtain k v where a: "a = (k, v)" by (cases a)
  show ?case
    unfolding a fit_categorical.simps Let_def
    by (subst Cons.IH, subst (2) Cons.IH) (simp split: prod.splits)
qed

lemma fit_categorical_Cons:
  "fit_categorical n ((k, v) # rest) tc d [] [] =
     (case fit_categorical n rest (tc + int (card (set v)))
             (d(k \<mapsto> dict_update (defaultdict_get d k)
                  (zip (np_unique v) (map (\<lambda>j. int j + tc) [0..<card (set v)])))) [] [] of
        (tc', d', fi', fv') \<Rightarrow>
          (tc', d', map (\<lambda>j. int j + tc) (unique_inverse v) # fi', replicate (nat n) 1 # fv'))"
  by (simp add: Let_def np_unique_indices np_unique_props(4))
    (subst fit_categorical_acc, simp split: prod.splits)

lemma fit_categorical_tc:
  "fst (fit_categorical n cats tc d fi fv) = tc + (\<Sum>kv\<leftarrow>cats. int (card (set (snd kv))))"
proof (induction cats arbitrary: tc d fi fv)
  case Nil
  then show ?case by simp
next
  case (Cons a cats)
  obtain k v where a: "a = (k, v)" by (cases a)
  show ?case
    unfolding a by (simp add: Let_def Cons.IH np_unique_props(4))
qed

lemma fit_categorical_dict_other:
  "k \<notin> fst ` set cats \<Longrightarrow>
   fst (snd (fit_categorical n cats tc d fi fv)) k = d k"
proof (induction cats arbitrary: tc d fi fv)
  case Nil
  then show ?case by simp
next
  case (Cons a cats)
  obtain k' v where a: "a = (k', v)" by (cases a)
  show ?case
    using Cons.prems unfolding a by (simp add: Let_def Cons.IH)
qed

lemma fit_categorical_dict:
  assumes "distinct (map fst cats)" "i < length cats" "d (fst (cats ! i)) = None"
  shows "fst (snd (fit_categorical n cats tc d fi fv)) (fst (cats ! i)) =
     Some (\<lambda>x. if x \<in> set (snd (cats ! i))
                then Some (tc + (\<Sum>kv\<leftarrow>take i cats. int (card (set (snd kv)))) +
                           int (card {y \<in> set (snd (cats ! i)). y < x}))
                else None)"
  using assms
proof (induction cats arbitrary: i tc d fi fv)
  case Nil
  then show ?case by simp
next
  case (Cons a cats)
  obtain k v where a: "a = (k, v)" by (cases a)
  show ?case
  proof (cases i)
    case 0
    have "k \<notin> fst ` set cats" using Cons.prems(1) a by simp
    then show ?thesis
      using Cons.prems(3) unfolding a 0
      by (simp add: Let_def fit_categorical_dict_other np_unique_indices np_unique_props(4)
          defaultdict_get_def column_vocabulary [abs_def] cong: if_cong)
  next
    case (Suc i')
    have "i' < length cats" using Cons.prems(2) Suc by simp
    then have "fst (cats ! i') \<in> set (map fst cats)" by simp
    then have ne: "fst (cats ! i') \<noteq> k"
      using Cons.prems(1) a by auto
    show ?thesis
      using Cons.prems ne unfolding a Suc
      by (simp add: Let_def Cons.IH np_unique_props(4) add.assoc cong: if_cong)
  qed
qed

lemma fit_categorical_fi:
  "i < length cats \<Longrightarrow>
   fst (snd (snd (fit_categorical n cats tc d fi fv))) ! (length fi + i) =
     map (\<lambda>j. int j + (tc + (\<Sum>kv\<leftarrow>take i cats. int (card (set (snd kv))))))
       (unique_inverse (snd (cats ! i)))"
proof (induction cats arbitrary: i tc d fi fv)
  case Nil
  then show ?case by simp
next
  case (Cons a cats)
  obtain k v where a: "a = (k, v)" by (cases a)
  show ?case
  proof (cases i)
    case 0
    show ?thesis
      unfolding a 0
      by (simp add: Let_def, subst fit_categorical_acc) (simp split: prod.splits)
  next
    case (Suc i')
    then have i': "i' < length cats" using Cons.prems by simp
    show ?thesis
      using Cons.IH [OF i', of "tc + int (card (set v))" _ "fi @ [map (\<lambda>j. int j + tc) (unique_inverse v)]"]
      unfolding a Suc by (simp add: Let_def np_unique_props(4) add.assoc)
  qed
qed

lemma fit_arrays_fs: "fit_arrays fi fv fs = Inr (indices, values, fs') \<Longrightarrow> fs' = fs"
  by (auto simp: fit_arrays_def split: sum.splits)

lemma fit_val_index_dict:
  "val_index_dict (fst (fit self cats nums n uf itf)) =
     fst (snd (fit_categorical n cats (int (length nums)) Map.empty
       (map (\<lambda>j. replicate (nat n) (int j)) [0..<length nums]) (map snd nums)))"
  by (simp add: fit_def fit_numerical_eq Let_def split: prod.splits option.splits)

lemma fit_total_count:
  "total_count (fst (fit self cats nums n uf itf)) =
     int (length nums) + (\<Sum>kv\<leftarrow>cats. int (card (set (snd kv))))"
  using fit_categorical_tc [of n cats "int (length nums)" Map.empty
      "map (\<lambda>j. replicate (nat n) (int j)) [0..<length nums]" "map snd nums"]
  by (auto simp: fit_def fit_numerical_eq Let_def split: prod.splits option.splits)

lemma fit_config:
  "include_user_item (fst (fit self cats nums n uf itf)) = include_user_item self"
  "n_users (fst (fit self cats nums n uf itf)) = n_users self"
  "n_items (fst (fit self cats nums n uf itf)) = n_items self"
  "value_sharing (fst (fit self cats nums n uf itf)) = value_sharing self"
  by (simp_all add: fit_def Let_def split: prod.splits option.splits)

lemma fit_again:
  "fit (fst (fit self cats nums n uf itf)) cats nums n uf itf = fit self cats nums n uf itf"
  by (simp add: fit_def Let_def split: prod.splits option.splits)

lemma fit_independent_of_state:
  assumes "include_user_item self2 = include_user_item self" "n_users self2 = n_users self"
    "n_items self2 = n_items self"
  shows "snd (fit self2 cats nums n uf itf) = snd (fit self cats nums n uf itf)"
    and "val_index_dict (fst (fit self2 cats nums n uf itf)) = val_index_dict (fst (fit self cats nums n uf itf))"
    and "feature_size (fst (fit self2 cats nums n uf itf)) = feature_size (fst (fit self cats nums n uf itf))"
    and "total_count (fst (fit self2 cats nums n uf itf)) = total_count (fst (fit self cats nums n uf itf))"
  using assms
  by (simp_all add: fit_def Let_def split: prod.splits option.splits)

lemma fit_returned:
  assumes "snd (fit self cats nums n uf itf) = Inr (fi, fv, fs)"
  shows "feature_size (fst (fit self cats nums n uf itf)) = fs"
    and "if include_user_item self
         then \<exists>nu ni. n_users self = Some nu \<and> n_items self = Some ni \<and>
                fs = total_count (fst (fit self cats nums n uf itf)) + nu + ni
         else fs = total_count (fst (fit self cats nums n uf itf))"
  using assms
  by (auto simp: fit_def Let_def split: if_splits option.splits prod.splits dest!: fit_arrays_fs)

lemma sum_list_take_le:
  fixes f :: "'b \<Rightarrow> int"
  assumes "\<forall>x\<in>set xs. 0 \<le> f x" "i < length xs"
  shows "(\<Sum>x\<leftarrow>take i xs. f x) + f (xs ! i) \<le> (\<Sum>x\<leftarrow>xs. f x)"
proof -
  have "xs = take i xs @ xs ! i # drop (Suc i) xs"
    using assms(2) by (simp add: id_take_nth_drop)
  then have "(\<Sum>x\<leftarrow>xs. f x) = (\<Sum>x\<leftarrow>take i xs. f x) + f (xs ! i) + (\<Sum>x\<leftarrow>drop (Suc i) xs. f x)"
    by (metis (no_types, lifting) add.assoc list.simps(9) map_append sum_list.Cons sum_list.append)
  moreover have "0 \<le> (\<Sum>x\<leftarrow>drop (Suc i) xs. f x)"
    using assms(1) by (intro sum_list_nonneg) (auto dest: in_set_dropD)
  ultimately show ?thesis by simp
qed

lemma card_less_member:
  fixes x :: "'a::linorder"
  assumes "x \<in> set v"
  shows "card {y \<in> set v. y < x} < card (set v)"
  by (rule psubset_card_mono) (use assms in auto)

lemma vocabulary_range:
  assumes dist: "distinct (map fst cats)"
    and m: "val_index_dict (fst (fit self cats nums n uf itf)) k = Some m"
    and x: "m x = Some idx"
  shows "int (length nums) \<le> idx \<and> idx < total_count (fst (fit self cats nums n uf itf))"
proof (cases "k \<in> fst ` set cats")
  case False
  then have "val_index_dict (fst (fit self cats nums n uf itf)) k = None"
    unfolding fit_val_index_dict by (simp add: fit_categorical_dict_other)
  with m show ?thesis by simp
next
  case True
  then obtain i where i: "i < length cats" "k = fst (cats ! i)"
    by (auto simp: in_set_conv_nth)
  let ?v = "snd (cats ! i)"
  let ?s = "\<Sum>kv\<leftarrow>take i cats. int (card (set (snd kv)))"
  have "val_index_dict (fst (fit self cats nums n uf itf)) k =
     Some (\<lambda>y. if y \<in> set ?v then Some (int (length nums) + ?s + int (card {z \<in> set ?v. z < y})) else None)"
    unfolding fit_val_index_dict i(2) by (rule fit_categorical_dict [OF dist i(1)]) simp
  with m x have xv: "x \<in> set ?v" and idx: "idx = int (length nums) + ?s + int (card {z \<in> set ?v. z < x})"
    by (auto split: if_splits)
  have "0 \<le> ?s" by (rule sum_list_nonneg) auto
  moreover have "?s + int (card (set ?v)) \<le> (\<Sum>kv\<leftarrow>cats. int (card (set (snd kv))))"
    using sum_list_take_le [of cats "\<lambda>kv. int (card (set (snd kv)))" i] i(1) by simp
  moreover have "card {z \<in> set ?v. z < x} < card (set ?v)"
    using card_less_member [OF xv] .
  ultimately show ?thesis
    unfolding idx fit_total_count by linarith
qed

section \<open>Properties of transform\<close>

lemma transform_numerical_eq:
  "transform_numerical n nums tc fi fv =
     (tc + int (length nums),
      fi @ map (\<lambda>j. replicate (nat n) (tc + int j)) [0..<length nums],
      fv @ map snd nums)"
proof (induction nums arbitrary: tc fi fv)
  case Nil
  then show ?case by simp
next
  case (Cons a nums)
  obtain k v where a: "a = (k, v)" by (cases a)
  show ?case
    unfolding a by (simp add: Cons.IH map_upt_Suc_shift add.assoc del: upt_Suc)
qed

lemma transform_categorical_eq:
  "transform_categorical ts fs tcats d fi fv =
     ((\<lambda>k. if k \<in> fst ` set tcats \<and> d k = None then Some Map.empty else d k),
      fi @ map (\<lambda>kv. fillna fs (series_map (defaultdict_get d (fst kv)) (snd kv))) tcats,
      fv @ map (\<lambda>kv. replicate (nat ts) 1) tcats)"
proof (induction tcats arbitrary: d fi fv)
  case Nil
  then show ?case by simp
next
  case (Cons a tcats)
  obtain k w where a: "a = (k, w)" by (cases a)
  have "(\<lambda>k'. if k' \<in> fst ` set tcats \<and> defaultdict_touch d k k' = None then Some Map.empty
               else defaultdict_touch d k k') =
        (\<lambda>k'. if k' \<in> fst ` set ((k, w) # tcats) \<and> d k' = None then Some Map.empty else d k')"
    by (rule ext) (auto simp: defaultdict_touch_def split: option.splits)
  then show ?case
    unfolding a by (simp add: Let_def Cons.IH defaultdict_get_touch)
qed

lemma transform_arrays_Inr:
  "transform_arrays fi fv = Inr (ti, tv) \<Longrightarrow>
   \<exists>rows. np_array_T fi = Inr rows \<and> ti = map (map astype_int32) rows \<and> np_array_T fv = Inr tv"
  by (auto simp: transform_arrays_def split: sum.splits)

lemma transform_Inr:
  assumes "snd (transform self tcats tnums ts tuf titf) = Inr (ti, tv)"
  shows "\<exists>rows idcols.
     np_array_T (map (\<lambda>j. replicate (nat ts) (int j)) [0..<length tnums] @
                 map (\<lambda>kv. fillna (feature_size self)
                        (series_map (defaultdict_get (val_index_dict self) (fst kv)) (snd kv))) tcats @
                 idcols) = Inr rows \<and>
     ti = map (map astype_int32) rows \<and>
     (if include_user_item self
      then \<exists>uf itf nu. tuf = Some uf \<and> titf = Some itf \<and> n_users self = Some nu \<and>
             idcols = [map (\<lambda>u. u + total_count self) uf, map (\<lambda>i. i + total_count self + nu) itf]
      else idcols = [])"
proof (cases "include_user_item self")
  case True
  from assms True obtain uf itf nu where
    o: "tuf = Some uf" "titf = Some itf" "n_users self = Some nu"
    by (auto simp: transform_def transform_numerical_eq transform_categorical_eq Let_def
        split: option.splits)
  from assms True o obtain rows where
    "np_array_T ((map (\<lambda>j. replicate (nat ts) (int j)) [0..<length tnums] @
                 map (\<lambda>kv. fillna (feature_size self)
                        (series_map (defaultdict_get (val_index_dict self) (fst kv)) (snd kv))) tcats) @
                 [map (\<lambda>u. u + total_count self) uf, map (\<lambda>i. i + total_count self + nu) itf]) = Inr rows"
    "ti = map (map astype_int32) rows"
    by (auto simp: transform_def transform_numerical_eq transform_categorical_eq Let_def
        dest!: transform_arrays_Inr)
  then show ?thesis using True o by auto
next
  case False
  from assms False obtain rows where
    "np_array_T (map (\<lambda>j. replicate (nat ts) (int j)) [0..<length tnums] @
                 map (\<lambda>kv. fillna (feature_size self)
                        (series_map (defaultdict_get (val_index_dict self) (fst kv)) (snd kv))) tcats) = Inr rows"
    "ti = map (map astype_int32) rows"
    by (auto simp: transform_def transform_numerical_eq transform_categorical_eq Let_def
        dest!: transform_arrays_Inr)
  then show ?thesis using False by auto
qed

lemma transform_state:
  "fst (transform self tcats tnums ts tuf titf) =
     self\<lparr>val_index_dict :=
       (\<lambda>k. if k \<in> fst ` set tcats \<and> val_index_dict self k = None then Some Map.empty
            else val_index_dict self k)\<rparr>"
  by (simp add: transform_def transform_numerical_eq transform_categorical_eq Let_def
      split: option.splits)

lemma transform_arrays_same_length:
  assumes "\<forall>c\<in>set fi. length c = n" "\<forall>c\<in>set fv. length c = n"
  shows "\<exists>ti tv. transform_arrays fi fv = Inr (ti, tv) \<and> (fi \<noteq> [] \<longrightarrow> length ti = n)"
proof -
  have a: "\<exists>rows. np_array_T fi = Inr rows \<and> (fi \<noteq> [] \<longrightarrow> length rows = n)"
    using np_array_T_same_length [OF assms(1)] np_array_T_Nil by (cases "fi = []") auto
  have b: "\<exists>rows. np_array_T fv = Inr rows"
    using np_array_T_same_length [OF assms(2)] np_array_T_Nil by (cases "fv = []") auto
  from a b show ?thesis
    by (auto simp: transform_arrays_def)
qed

text \<open>
  Every index \<open>transform\<close> returns is an \<open>int32\<close>; a \<open>feature_size\<close> outside that
  range is therefore no entry of the returned array.
\<close>

lemma transform_indices_int32:
  assumes "snd (transform self tcats tnums ts tuf titf) = Inr (ti, tv)"
    and "r < length ti" and "c < length (ti ! r)"
  shows "- (2 ^ 31) \<le> ti ! r ! c \<and> ti ! r ! c < 2 ^ 31"
proof -
  from transform_Inr [OF assms(1)] obtain rows where ti: "ti = map (map astype_int32) rows"
    by blast
  then have "ti ! r ! c = astype_int32 (rows ! r ! c)"
    using assms(2,3) by simp
  then show ?thesis using astype_int32_range [of "rows ! r ! c"] by simp
qed

lemma transform_returns:
  assumes "\<forall>kv\<in>set tnums. length (snd kv) = nat ts"
    and "\<forall>kv\<in>set tcats. length (snd kv) = nat ts"
    and "include_user_item self \<longrightarrow>
       (\<exists>uf itf nu. tuf = Some uf \<and> titf = Some itf \<and> n_users self = Some nu \<and>
          length uf = nat ts \<and> length itf = nat ts)"
  shows "\<exists>ti tv. snd (transform self tcats tnums ts tuf titf) = Inr (ti, tv) \<and>
     (tnums \<noteq> [] \<or> tcats \<noteq> [] \<or> include_user_item self \<longrightarrow> length ti = nat ts)"
proof (cases "include_user_item self")
  case True
  with assms(3) obtain uf itf nu where
    o: "tuf = Some uf" "titf = Some itf" "n_users self = Some nu"
      "length uf = nat ts" "length itf = nat ts" by blast
  let ?fi = "(map (\<lambda>j. replicate (nat ts) (int j)) [0..<length tnums] @
                 map (\<lambda>kv. fillna (feature_size self)
                        (series_map (defaultdict_get (val_index_dict self) (fst kv)) (snd kv))) tcats) @
                 [map (\<lambda>u. u + total_count self) uf, map (\<lambda>i. i + total_count self + nu) itf]"
  let ?fv = "(map snd tnums @ map (\<lambda>kv. replicate (nat ts) 1) tcats) @
                 [replicate (nat ts) 1, replicate (nat ts) (1::real)]"
  have "\<forall>c\<in>set ?fi. length c = nat ts"
    using assms(2) o by (auto simp: fillna_def series_map_def)
  moreover have "\<forall>c\<in>set ?fv. length c = nat ts"
    using assms(1) by auto
  ultimately have "\<exists>ti tv. transform_arrays ?fi ?fv = Inr (ti, tv) \<and> (?fi \<noteq> [] \<longrightarrow> length ti = nat ts)"
    by (rule transform_arrays_same_length)
  then show ?thesis
    using True o
    by (simp add: transform_def transform_numerical_eq transform_categorical_eq Let_def)
next
  case False
  let ?fi = "map (\<lambda>j. replicate (nat ts) (int j)) [0..<length tnums] @
                 map (\<lambda>kv. fillna (feature_size self)
                        (series_map (defaultdict_get (val_index_dict self) (fst kv)) (snd kv))) tcats"
  let ?fv = "map snd tnums @ map (\<lambda>kv. replicate (nat ts) (1::real)) tcats"
  have "\<forall>c\<in>set ?fi. length c = nat ts"
    using assms(2) by (auto simp: fillna_def series_map_def)
  moreover have "\<forall>c\<in>set ?fv. length c = nat ts"
    using assms(1) by auto
  ultimately have "\<exists>ti tv. transform_arrays ?fi ?fv = Inr (ti, tv) \<and> (?fi \<noteq> [] \<longrightarrow> length ti = nat ts)"
    by (rule transform_arrays_same_length)
  then show ?thesis
    using False
    by (simp add: transform_def transform_numerical_eq transform_categorical_eq Let_def)
qed


lemma transform_after_transform:
  "snd (transform (fst (transform self tcats tnums ts tuf titf)) tcats2 tnums2 ts2 tuf2 titf2) =
   snd (transform self tcats2 tnums2 ts2 tuf2 titf2)"
  unfolding transform_state
  by (simp add: transform_def transform_numerical_eq transform_categorical_eq Let_def
      defaultdict_get_touched split: option.splits)

section \<open>Properties of the negative sampler\<close>

subsection \<open>Labels\<close>

lemma label_negative_sampling_Inr:
  assumes "label_negative_sampling self = Inr labels"
  shows "int (length labels) = int (dataset_len (dataset self)) * (num_neg self + 1)"
    and "k < length labels \<Longrightarrow> labels ! k = (if int k mod (num_neg self + 1) = 0 then 1 else 0)"
proof -
  let ?f = "num_neg self + 1"
  let ?t = "int (dataset_len (dataset self)) * ?f"
  have t: "0 \<le> ?t" and f: "?f \<noteq> 0"
    using assms by (auto simp: label_negative_sampling_def Let_def split: if_splits)
  show len: "int (length labels) = ?t"
    using assms t by (auto simp: label_negative_sampling_def Let_def length_slice_assign split: if_splits)
  show "labels ! k = (if int k mod ?f = 0 then 1 else 0)" if k: "k < length labels"
  proof (cases "?f < 0")
    case True
    then have "?t \<le> 0" by (simp add: mult_nonneg_nonpos)
    with len k show ?thesis by simp
  next
    case False
    then have pos: "0 < ?f" using f by simp
    then have l: "labels = slice_assign 0 (nat ?f) 1 (replicate (nat ?t) 0)"
      using assms by (auto simp: label_negative_sampling_def Let_def split: if_splits)
    have "k < nat ?t" using k len by simp
    then have "labels ! k = (if k mod nat ?f = 0 then 1 else 0)"
      unfolding l using pos by (simp add: nth_slice_assign)
    moreover have "int (k mod nat ?f) = int k mod ?f"
      using pos by (simp add: zmod_int)
    ultimately show ?thesis
      by (simp add: of_nat_eq_0_iff [symmetric] del: of_nat_eq_0_iff)
  qed
qed

lemma label_negative_sampling_returns:
  assumes "0 \<le> num_neg self"
  shows "\<exists>labels. label_negative_sampling self = Inr labels"
proof -
  have "0 \<le> int (dataset_len (dataset self)) * (num_neg self + 1)"
    using assms by simp
  then show ?thesis
    using assms by (simp add: label_negative_sampling_def Let_def not_less)
qed

lemma call_label_unshuffled:
  "call rng self seed dense False = Some (Inr (sparse, dense_opt, label)) \<Longrightarrow>
   label_negative_sampling self = Inr label"
  by (auto simp: call_def Let_def split: sum.splits option.splits if_splits)

lemma label_scenario:
  assumes "num_neg self = 2" "dataset_len (dataset self) = 4"
  shows "label_negative_sampling self = Inr [1, 0, 0, 1, 0, 0, 1, 0, 0, 1, 0, 0]"
  using assms
  by (simp add: label_negative_sampling_def Let_def slice_assign.simps numeral_eq_Suc)

subsection \<open>Rejection sampling\<close>

lemma reject_loop_Some:
  assumes "reject_loop draw consumed k x = Some r"
  shows "fst r \<notin> consumed \<and> k \<le> snd r \<and>
         (fst r = x \<and> snd r = k \<or> (\<exists>j. k \<le> j \<and> j < snd r \<and> fst r = draw j))"
proof (rule reject_loop.raw_induct
    [where P = "\<lambda>draw consumed k x r. fst r \<notin> consumed \<and> k \<le> snd r \<and>
         (fst r = x \<and> snd r = k \<or> (\<exists>j. k \<le> j \<and> j < snd r \<and> fst r = draw j))",
     OF _ assms], goal_cases)
  case (1 loop draw consumed k x r)
  show ?case
  proof (cases "x \<in> consumed")
    case False
    then show ?thesis using 1(2) by auto
  next
    case True
    then have "loop draw consumed (Suc k) (draw k) = Some r" using 1(2) by simp
    from 1(1) [OF this] have a: "fst r \<notin> consumed" "Suc k \<le> snd r"
      and b: "fst r = draw k \<and> snd r = Suc k \<or> (\<exists>j. Suc k \<le> j \<and> j < snd r \<and> fst r = draw j)"
      by blast+
    from b have "\<exists>j. k \<le> j \<and> j < snd r \<and> fst r = draw j"
    proof
      assume "fst r = draw k \<and> snd r = Suc k"
      then show ?thesis by (intro exI [of _ k]) simp
    next
      assume "\<exists>j. Suc k \<le> j \<and> j < snd r \<and> fst r = draw j"
      then obtain j where "Suc k \<le> j" "j < snd r" "fst r = draw j" by blast
      then show ?thesis by (intro exI [of _ j]) simp
    qed
    with a show ?thesis by simp
  qed
qed

lemma reject_loop_terminates:
  "k \<le> j \<Longrightarrow> draw j \<notin> consumed \<Longrightarrow> \<exists>r. reject_loop draw consumed k x = Some r"
proof (induction "j - k" arbitrary: k x)
  case 0
  then have kj: "k = j" by simp
  have "reject_loop draw consumed (Suc k) (draw k) = Some (draw k, Suc k)"
    using "0.prems"(2) kj by (subst reject_loop.simps) simp
  then show ?case
    by (subst reject_loop.simps) simp
next
  case (Suc d)
  then have "Suc k \<le> j" "d = j - Suc k" by simp_all
  from Suc.hyps(1) [OF this(2,1) Suc.prems(2)]
  obtain r where "reject_loop draw consumed (Suc k) (draw k) = Some r" by blast
  then show ?case
    by (subst reject_loop.simps) simp
qed

lemma reject_loop_diverges:
  assumes "x \<in> consumed" "\<forall>j\<ge>k. draw j \<in> consumed"
  shows "reject_loop draw consumed k x = None"
proof (rule ccontr)
  assume "reject_loop draw consumed k x \<noteq> None"
  then obtain r where r: "reject_loop draw consumed k x = Some r" by blast
  have "\<not> (x \<in> consumed \<and> (\<forall>j\<ge>k. draw j \<in> consumed))"
  proof (rule reject_loop.raw_induct
      [where P = "\<lambda>draw consumed k x r. \<not> (x \<in> consumed \<and> (\<forall>j\<ge>k. draw j \<in> consumed))",
       OF _ r], goal_cases)
    case (1 loop draw consumed k x r)
    show ?case
    proof
      assume a: "x \<in> consumed \<and> (\<forall>j\<ge>k. draw j \<in> consumed)"
      then have "loop draw consumed (Suc k) (draw k) = Some r" using 1(2) by simp
      from 1(1) [OF this] a show False by auto
    qed
  qed
  with assms show False by simp
qed

lemma sample_negatives_Some:
  "sample_negatives draw consumed m k = Some (negs, k') \<Longrightarrow>
   length negs = m \<and> k \<le> k' \<and>
   (\<forall>y\<in>set negs. y \<notin> consumed \<and> (\<exists>j. y = draw j))"
proof (induction m arbitrary: k negs k')
  case 0
  then show ?case by simp
next
  case (Suc m)
  from Suc.prems obtain y k1 negs' where
    r: "reject_loop draw consumed (Suc k) (draw k) = Some (y, k1)" and
    s: "sample_negatives draw consumed m k1 = Some (negs', k')" and
    n: "negs = y # negs'"
    by (auto split: option.splits)
  from reject_loop_Some [OF r] have "y \<notin> consumed" "Suc k \<le> k1" "\<exists>j. y = draw j"
    by auto
  with Suc.IH [OF s] n show ?case by auto
qed

lemma sample_negatives_terminates:
  assumes "\<forall>k. \<exists>j\<ge>k. draw j \<notin> consumed"
  shows "\<exists>r. sample_negatives draw consumed m k = Some r"
proof (induction m arbitrary: k)
  case 0
  then show ?case by simp
next
  case (Suc m)
  from assms obtain j where "Suc k \<le> j" "draw j \<notin> consumed" by blast
  from reject_loop_terminates [of "Suc k" j draw consumed "draw k", OF this] obtain y k1 where
    "reject_loop draw consumed (Suc k) (draw k) = Some (y, k1)" by fastforce
  moreover from Suc.IH obtain negs k' where "sample_negatives draw consumed m k1 = Some (negs, k')"
    by fastforce
  ultimately show ?case by simp
qed

lemma sample_negatives_diverges:
  assumes "\<forall>j. draw j \<in> consumed"
  shows "sample_negatives draw consumed (Suc m) k = None"
proof -
  have "reject_loop draw consumed (Suc k) (draw k) = None"
    using assms by (intro reject_loop_diverges) auto
  then show ?thesis by simp
qed

lemma sample_pairs_Some:
  "sample_pairs draw consumed m pairs k = Some (items, k') \<Longrightarrow>
   length items = length pairs * Suc m \<and>
   (\<forall>p<length pairs.
      items ! (p * Suc m) = snd (pairs ! p) \<and>
      (\<forall>q. 1 \<le> q \<and> q \<le> m \<longrightarrow>
         items ! (p * Suc m + q) \<notin> consumed (fst (pairs ! p)) \<and>
         (\<exists>j. items ! (p * Suc m + q) = draw j)))"
proof (induction pairs arbitrary: k items k')
  case Nil
  then show ?case by simp
next
  case (Cons a rest)
  obtain u i where a: "a = (u, i)" by (cases a)
  from Cons.prems obtain negs k1 items' where
    n: "sample_negatives draw (consumed u) m k = Some (negs, k1)" and
    s: "sample_pairs draw consumed m rest k1 = Some (items', k')" and
    it: "items = i # negs @ items'"
    unfolding a by (auto split: option.splits)
  from sample_negatives_Some [OF n] have
    ln: "length negs = m" and
    negs: "\<forall>y\<in>set negs. y \<notin> consumed u \<and> (\<exists>j. y = draw j)"
    by blast+
  note IH = Cons.IH [OF s]
  have len: "length items = length (a # rest) * Suc m"
    using IH ln it by simp
  have pos: "items ! (p * Suc m) = snd ((a # rest) ! p) \<and>
      (\<forall>q. 1 \<le> q \<and> q \<le> m \<longrightarrow>
         items ! (p * Suc m + q) \<notin> consumed (fst ((a # rest) ! p)) \<and>
         (\<exists>j. items ! (p * Suc m + q) = draw j))"
    if p: "p < length (a # rest)" for p
  proof (cases p)
    case 0
    have "items ! q \<notin> consumed u \<and> (\<exists>j. items ! q = draw j)" if q: "1 \<le> q" "q \<le> m" for q
    proof -
      have "q - 1 < length negs" using q ln by simp
      then have "items ! q = negs ! (q - 1)"
        using q it by (simp add: nth_Cons' nth_append)
      moreover have "negs ! (q - 1) \<in> set negs" using q ln by simp
      ultimately show ?thesis using negs by simp
    qed
    then show ?thesis using 0 it a by simp
  next
    case (Suc p')
    then have p': "p' < length rest" using p by simp
    have shift: "items ! (p * Suc m + q) = items' ! (p' * Suc m + q)" for q
    proof -
      have "p * Suc m + q = length (i # negs) + (p' * Suc m + q)"
        using Suc ln by simp
      then show ?thesis
        unfolding it by (metis append_Cons nth_append_length_plus)
    qed
    from IH p' have
      "items' ! (p' * Suc m) = snd (rest ! p') \<and>
      (\<forall>q. 1 \<le> q \<and> q \<le> m \<longrightarrow>
         items' ! (p' * Suc m + q) \<notin> consumed (fst (rest ! p')) \<and>
         (\<exists>j. items' ! (p' * Suc m + q) = draw j))"
      by blast
    then show ?thesis
      using shift [of 0] shift Suc by simp
  qed
  from len pos show ?case by blast
qed

lemma sample_pairs_terminates:
  assumes "\<forall>ui\<in>set pairs. \<forall>k. \<exists>j\<ge>k. draw j \<notin> consumed (fst ui)"
  shows "\<exists>r. sample_pairs draw consumed m pairs k = Some r"
  using assms
proof (induction pairs arbitrary: k)
  case Nil
  then show ?case by simp
next
  case (Cons a rest)
  obtain u i where a: "a = (u, i)" by (cases a)
  have "\<forall>k. \<exists>j\<ge>k. draw j \<notin> consumed u" using Cons.prems a by simp
  from sample_negatives_terminates [OF this] obtain negs k1 where
    "sample_negatives draw (consumed u) m k = Some (negs, k1)" by fastforce
  moreover from Cons.IH Cons.prems obtain items k' where
    "sample_pairs draw consumed m rest k1 = Some (items, k')" by fastforce
  ultimately show ?case unfolding a by simp
qed

lemma sample_pairs_diverges:
  assumes "u \<in> fst ` set pairs" "\<forall>j. draw j \<in> consumed u"
  shows "sample_pairs draw consumed (Suc m) pairs k = None"
  using assms(1)
proof (induction pairs arbitrary: k)
  case Nil
  then show ?case by simp
next
  case (Cons a rest)
  obtain u' i where a: "a = (u', i)" by (cases a)
  show ?case
  proof (cases "u' = u")
    case True
    then show ?thesis
      unfolding a using sample_negatives_diverges [OF assms(2)] by simp
  next
    case False
    then have "u \<in> fst ` set rest" using Cons.prems a by auto
    from Cons.IH [OF this] show ?thesis
      unfolding a by (simp split: option.splits)
  qed
qed

lemma sample_pairs_set:
  "sample_pairs draw consumed m pairs k = Some (items, k') \<Longrightarrow>
   set items \<subseteq> snd ` set pairs \<union> range draw"
proof (induction pairs arbitrary: k items k')
  case Nil
  then show ?case by simp
next
  case (Cons a rest)
  obtain u i where a: "a = (u, i)" by (cases a)
  from Cons.prems obtain negs k1 items' where
    n: "sample_negatives draw (consumed u) m k = Some (negs, k1)" and
    s: "sample_pairs draw consumed m rest k1 = Some (items', k')" and
    it: "items = i # negs @ items'"
    unfolding a by (auto split: option.splits)
  from sample_negatives_Some [OF n] have "set negs \<subseteq> range draw" by auto
  with Cons.IH [OF s] show ?case unfolding it a by auto
qed

lemma sample_items_returns:
  assumes nn: "0 \<le> num_neg self"
    and range: "\<forall>k. 0 \<le> draw k \<and> draw k < n_items_info (data_info self)"
    and fair: "\<forall>u\<in>set (user_indices (dataset self)). \<forall>k. \<exists>j\<ge>k.
        draw j \<notin> train_user_consumed (dataset self) u"
  shows "\<exists>items. sample_items draw self = Some (Inr items) \<and>
     length items = min (length (user_indices (dataset self))) (length (item_indices (dataset self))) *
       nat (num_neg self + 1) \<and>
     set items \<subseteq> set (item_indices (dataset self)) \<union> range draw"
proof -
  let ?pairs = "zip (user_indices (dataset self)) (item_indices (dataset self))"
  let ?m = "nat (num_neg self)"
  have "\<forall>ui\<in>set ?pairs. \<forall>k. \<exists>j\<ge>k. draw j \<notin> train_user_consumed (dataset self) (fst ui)"
    using fair by (auto dest: set_zip_leftD)
  from sample_pairs_terminates [OF this] obtain items k' where
    sp: "sample_pairs draw (train_user_consumed (dataset self)) ?m ?pairs 0 = Some (items, k')"
    by fastforce
  have "0 < n_items_info (data_info self)" using range by (meson le_less_trans)
  then have "sample_items draw self = Some (Inr items)"
    using sp by (simp add: sample_items_def Let_def)
  moreover have "length items = length ?pairs * nat (num_neg self + 1)"
    using sample_pairs_Some [OF sp] nn by (simp add: nat_add_distrib)
  moreover have "snd ` set ?pairs \<subseteq> set (item_indices (dataset self))"
    by (auto dest: set_zip_rightD)
  then have "set items \<subseteq> set (item_indices (dataset self)) \<union> range draw"
    using sample_pairs_set [OF sp] by blast
  ultimately show ?thesis by simp
qed

subsection \<open>Attribute blocks\<close>

lemma reindex_rows:
  fixes data :: "'a list list"
  assumes take: "np_take_cols data ucol = Inr urows"
    and rep: "np_repeat_rows urows m = Inr usampled"
    and items: "fancy_index uniq items = Inr isampled"
    and len: "length usampled = length isampled"
    and out: "np_take_cols (np_concatenate_cols usampled isampled)
        (map int (map (\<lambda>j. [0..<length (ucol @ icol)] ! j) (np_argsort (ucol @ icol)))) = Inr out"
    and perm: "sort (ucol @ icol) = map int [0..<length (ucol @ icol)]"
    and r: "r < length out"
  shows "length out = length items"
    and "length (out ! r) = length (ucol @ icol)"
    and "np_index uniq (items ! r) = Inr (isampled ! r)"
    and "\<forall>p<length ucol. out ! r ! nat (ucol ! p) = data ! (r div nat m) ! nat (ucol ! p)"
    and "\<forall>q<length icol. out ! r ! nat (icol ! q) = isampled ! r ! q"
proof -
  let ?orig = "ucol @ icol"
  let ?w = "length ?orig"
  let ?idx = "map int (map (\<lambda>j. [0..<?w] ! j) (np_argsort ?orig))"
  let ?crows = "np_concatenate_cols usampled isampled"
  have lout: "length out = length ?crows" using np_take_cols_Inr(1) [OF out] .
  have lc: "length ?crows = length isampled" using len by (simp add: np_concatenate_cols_nth)
  have li: "length isampled = length items" using fancy_index_Inr(1) [OF items] .
  show "length out = length items" using lout lc li by simp
  have r1: "r < length ?crows" "r < length usampled" "r < length isampled" "r < length items"
    using r lout lc li len by simp_all
  show "np_index uniq (items ! r) = Inr (isampled ! r)"
    using fancy_index_Inr(2) [OF items r1(4)] .
  have crow: "?crows ! r = usampled ! r @ isampled ! r"
    using r1 by (simp add: np_concatenate_cols_nth)
  have fo: "fancy_index (?crows ! r) ?idx = Inr (out ! r)"
    using np_take_cols_Inr(2) [OF out r1(1)] .
  have lidx: "length ?idx = ?w" by (simp add: length_np_argsort)
  show "length (out ! r) = ?w" using fancy_index_Inr(1) [OF fo] lidx by simp
  have idx: "?idx ! c = int (np_argsort ?orig ! c)" if "c < ?w" for c
    using that np_argsort_perm(1) [OF perm that] by (simp add: length_np_argsort)
  have entry: "np_argsort ?orig ! c < length (?crows ! r) \<and>
      out ! r ! c = ?crows ! r ! (np_argsort ?orig ! c)" if c: "c < ?w" for c
  proof -
    have "np_index (?crows ! r) (?idx ! c) = Inr (out ! r ! c)"
      using fancy_index_Inr(2) [OF fo] c lidx by simp
    then have "np_index (?crows ! r) (int (np_argsort ?orig ! c)) = Inr (out ! r ! c)"
      using idx [OF c] by simp
    from np_index_nonneg [OF this] show ?thesis by simp
  qed
  have set_orig: "set ?orig = set (map int [0..<?w])"
    using perm by (metis set_sort)
  have dist: "distinct ?orig"
  proof -
    have "distinct (map int [0..<?w])" by (simp add: distinct_map)
    then have "distinct (sort ?orig)" using perm by simp
    then show ?thesis by simp
  qed
  have col: "0 \<le> ?orig ! p \<and> nat (?orig ! p) < ?w \<and> np_argsort ?orig ! nat (?orig ! p) = p"
    if p: "p < ?w" for p
  proof -
    have "?orig ! p \<in> set (map int [0..<?w])" using set_orig p nth_mem by blast
    then have a: "0 \<le> ?orig ! p" "nat (?orig ! p) < ?w" by auto
    from np_argsort_perm [OF perm a(2)] a(1)
    have "np_argsort ?orig ! nat (?orig ! p) < ?w"
      "?orig ! (np_argsort ?orig ! nat (?orig ! p)) = ?orig ! p" by simp_all
    then have "np_argsort ?orig ! nat (?orig ! p) = p"
      using dist p by (simp add: nth_eq_iff_index_eq)
    with a show ?thesis by simp
  qed
  have mlen: "length usampled = length urows * nat m"
    using np_repeat_rows_Inr(2) [OF rep] .
  have us: "usampled ! r = urows ! (r div nat m)"
    using np_repeat_rows_Inr(3) [OF rep r1(2)] .
  have d: "r div nat m < length urows"
  proof -
    have "0 < nat m" using r1(2) mlen by (cases "nat m") simp_all
    then show ?thesis using r1(2) mlen by (simp add: less_mult_imp_div_less)
  qed
  have d': "r div nat m < length data" using d np_take_cols_Inr(1) [OF take] by simp
  have fu: "fancy_index (data ! (r div nat m)) ucol = Inr (urows ! (r div nat m))"
    using np_take_cols_Inr(2) [OF take d'] .
  have lu: "length (usampled ! r) = length ucol"
    using fancy_index_Inr(1) [OF fu] us by simp
  show "\<forall>p<length ucol. out ! r ! nat (ucol ! p) = data ! (r div nat m) ! nat (ucol ! p)"
  proof (intro allI impI)
    fix p assume p: "p < length ucol"
    then have pw: "p < ?w" by simp
    have op: "?orig ! p = ucol ! p" using p by (simp add: nth_append)
    from col [OF pw] have c: "0 \<le> ucol ! p" "nat (ucol ! p) < ?w"
      "np_argsort ?orig ! nat (ucol ! p) = p" unfolding op by simp_all
    from entry [OF c(2)] have "out ! r ! nat (ucol ! p) = ?crows ! r ! p"
      using c(3) by simp
    also have "\<dots> = usampled ! r ! p" using crow lu p by (simp add: nth_append)
    also have "\<dots> = data ! (r div nat m) ! nat (ucol ! p)"
      using np_index_nonneg [OF fancy_index_Inr(2) [OF fu p] c(1)] us by simp
    finally show "out ! r ! nat (ucol ! p) = data ! (r div nat m) ! nat (ucol ! p)" .
  qed
  show "\<forall>q<length icol. out ! r ! nat (icol ! q) = isampled ! r ! q"
  proof (intro allI impI)
    fix q assume q: "q < length icol"
    then have pw: "length ucol + q < ?w" by simp
    have op: "?orig ! (length ucol + q) = icol ! q" by (simp add: nth_append)
    from col [OF pw] have c: "0 \<le> icol ! q" "nat (icol ! q) < ?w"
      "np_argsort ?orig ! nat (icol ! q) = length ucol + q" unfolding op by simp_all
    from entry [OF c(2)] have "out ! r ! nat (icol ! q) = ?crows ! r ! (length ucol + q)"
      using c(3) by simp
    also have "\<dots> = isampled ! r ! q" using crow lu by (simp add: nth_append)
    finally show "out ! r ! nat (icol ! q) = isampled ! r ! q" .
  qed
qed

lemma sparse_negative_sampling_Inr:
  assumes "sparse_negative_sampling self items = Inr out"
  shows "\<exists>urows usampled isampled.
     np_take_cols (sparse_indices (dataset self)) (user_sparse_col (data_info self)) = Inr urows \<and>
     np_repeat_rows urows (num_neg self + 1) = Inr usampled \<and>
     items \<noteq> [] \<and>
     fancy_index (item_sparse_unique (data_info self)) items = Inr isampled \<and>
     length usampled = length isampled \<and>
     np_take_cols (np_concatenate_cols usampled isampled)
       (map int (map (\<lambda>j. [0..<length (user_sparse_col (data_info self) @ item_sparse_col (data_info self))] ! j)
          (np_argsort (user_sparse_col (data_info self) @ item_sparse_col (data_info self))))) = Inr out"
  using assms
  by (auto simp: sparse_negative_sampling_def Let_def split: sum.splits if_splits)

lemma dense_negative_sampling_Inr:
  assumes "dense_negative_sampling self items = Inr out"
  shows "\<exists>urows usampled isampled.
     np_take_cols (dense_values (dataset self)) (user_dense_col (data_info self)) = Inr urows \<and>
     np_repeat_rows urows (num_neg self + 1) = Inr usampled \<and>
     items \<noteq> [] \<and>
     fancy_index (item_dense_unique (data_info self)) items = Inr isampled \<and>
     length usampled = length isampled \<and>
     np_take_cols (np_concatenate_cols usampled isampled)
       (map int (map (\<lambda>j. [0..<length (user_dense_col (data_info self) @ item_dense_col (data_info self))] ! j)
          (np_argsort (user_dense_col (data_info self) @ item_dense_col (data_info self))))) = Inr out"
  using assms
  by (auto simp: dense_negative_sampling_def Let_def split: sum.splits if_splits)

lemma sparse_negative_sampling_rows:
  assumes "sparse_negative_sampling self items = Inr out"
  shows "length out = length items"
proof -
  from sparse_negative_sampling_Inr [OF assms] obtain usampled isampled where
    s: "fancy_index (item_sparse_unique (data_info self)) items = Inr isampled"
      "length usampled = length isampled"
      "np_take_cols (np_concatenate_cols usampled isampled)
         (map int (map (\<lambda>j. [0..<length (user_sparse_col (data_info self) @ item_sparse_col (data_info self))] ! j)
            (np_argsort (user_sparse_col (data_info self) @ item_sparse_col (data_info self))))) = Inr out"
    by blast
  show ?thesis
    using np_take_cols_Inr(1) [OF s(3)] s(2) fancy_index_Inr(1) [OF s(1)]
    by (simp add: np_concatenate_cols_nth)
qed

lemma dense_negative_sampling_rows:
  assumes "dense_negative_sampling self items = Inr out"
  shows "length out = length items"
proof -
  from dense_negative_sampling_Inr [OF assms] obtain usampled isampled where
    s: "fancy_index (item_dense_unique (data_info self)) items = Inr isampled"
      "length usampled = length isampled"
      "np_take_cols (np_concatenate_cols usampled isampled)
         (map int (map (\<lambda>j. [0..<length (user_dense_col (data_info self) @ item_dense_col (data_info self))] ! j)
            (np_argsort (user_dense_col (data_info self) @ item_dense_col (data_info self))))) = Inr out"
    by blast
  show ?thesis
    using np_take_cols_Inr(1) [OF s(3)] s(2) fancy_index_Inr(1) [OF s(1)]
    by (simp add: np_concatenate_cols_nth)
qed

lemma attribute_block_returns:
  fixes data :: "'a list list"
  assumes rows: "\<forall>row\<in>set data. length row = length (ucol @ icol)"
    and uniq: "\<forall>row\<in>set uniq. length row = length icol"
    and perm: "sort (ucol @ icol) = map int [0..<length (ucol @ icol)]"
    and m: "0 \<le> m"
    and items: "\<forall>i\<in>set items. 0 \<le> i \<and> nat i < length uniq"
    and len: "length data * nat m = length items"
  shows "\<exists>urows usampled isampled out.
     np_take_cols data ucol = Inr urows \<and>
     np_repeat_rows urows m = Inr usampled \<and>
     fancy_index uniq items = Inr isampled \<and>
     length usampled = length isampled \<and>
     np_take_cols (np_concatenate_cols usampled isampled)
       (map int (map (\<lambda>j. [0..<length (ucol @ icol)] ! j) (np_argsort (ucol @ icol)))) = Inr out"
proof -
  let ?w = "length (ucol @ icol)"
  have "\<forall>i\<in>set ucol. 0 \<le> i \<and> nat i < ?w"
    using perm_entries [OF perm] by simp
  from np_take_cols_returns [OF rows this] obtain urows where
    u: "np_take_cols data ucol = Inr urows" by blast
  have uw: "\<forall>row\<in>set urows. length row = length ucol"
  proof
    fix row assume "row \<in> set urows"
    then obtain r where r: "r < length urows" "row = urows ! r" by (auto simp: in_set_conv_nth)
    then have "r < length data" using np_take_cols_Inr(1) [OF u] by simp
    from fancy_index_Inr(1) [OF np_take_cols_Inr(2) [OF u this]] r(2)
    show "length row = length ucol" by simp
  qed
  define usampled where "usampled = concat (map (replicate (nat m)) urows)"
  have us: "np_repeat_rows urows m = Inr usampled"
    using m by (simp add: np_repeat_rows_def usampled_def)
  have usw: "\<forall>row\<in>set usampled. length row = length ucol"
    using uw by (auto simp: usampled_def)
  from fancy_index_returns [OF items] obtain isampled where
    i: "fancy_index uniq items = Inr isampled" by blast
  have isw: "\<forall>row\<in>set isampled. length row = length icol"
  proof
    fix row assume "row \<in> set isampled"
    then obtain r where r: "r < length isampled" "row = isampled ! r" by (auto simp: in_set_conv_nth)
    then have r': "r < length items" using fancy_index_Inr(1) [OF i] by simp
    then have "items ! r \<in> set items" by simp
    then have rng: "0 \<le> items ! r" "nat (items ! r) < length uniq" using items by auto
    from np_index_nonneg [OF fancy_index_Inr(2) [OF i r'] rng(1)]
    have "row = uniq ! nat (items ! r)" using r(2) by simp
    then show "length row = length icol" using uniq rng(2) by simp
  qed
  have l: "length usampled = length isampled"
    using np_repeat_rows_Inr(2) [OF us] np_take_cols_Inr(1) [OF u] len fancy_index_Inr(1) [OF i]
    by simp
  have cw: "\<forall>row\<in>set (np_concatenate_cols usampled isampled). length row = ?w"
  proof
    fix row assume "row \<in> set (np_concatenate_cols usampled isampled)"
    then obtain x y where xy: "(x, y) \<in> set (zip usampled isampled)" "row = x @ y"
      by (auto simp: np_concatenate_cols_def)
    then have "x \<in> set usampled" "y \<in> set isampled"
      by (auto dest: set_zip_leftD set_zip_rightD)
    then show "length row = ?w" using usw isw xy(2) by simp
  qed
  have "\<forall>i\<in>set (map int (map (\<lambda>j. [0..<?w] ! j) (np_argsort (ucol @ icol)))). 0 \<le> i \<and> nat i < ?w"
    using set_np_argsort [of "ucol @ icol"] by auto
  from np_take_cols_returns [OF cw this] obtain out where
    "np_take_cols (np_concatenate_cols usampled isampled)
       (map int (map (\<lambda>j. [0..<?w] ! j) (np_argsort (ucol @ icol)))) = Inr out" by blast
  with u us i l show ?thesis by blast
qed

subsection \<open>The whole call\<close>

lemma call_returns:
  fixes rng :: np_random and self :: NegativeSamplingFeat and seed :: int
  defines "ds \<equiv> dataset self" and "di \<equiv> data_info self"
  defines "n \<equiv> dataset_len ds"
  assumes nn: "0 \<le> num_neg self" and n0: "0 < n"
    and lens: "length (user_indices ds) = n" "length (item_indices ds) = n"
      "length (sparse_indices ds) = n" "length (dense_values ds) = n"
    and item_rng: "\<forall>i\<in>set (item_indices ds). 0 \<le> i \<and> i < n_items_info di"
    and uniq_len: "length (item_sparse_unique di) = nat (n_items_info di)"
      "length (item_dense_unique di) = nat (n_items_info di)"
    and sparse_w: "\<forall>row\<in>set (sparse_indices ds). length row = length (user_sparse_col di @ item_sparse_col di)"
      "\<forall>row\<in>set (item_sparse_unique di). length row = length (item_sparse_col di)"
      "sort (user_sparse_col di @ item_sparse_col di) =
         map int [0..<length (user_sparse_col di @ item_sparse_col di)]"
    and dense_w: "\<forall>row\<in>set (dense_values ds). length row = length (user_dense_col di @ item_dense_col di)"
      "\<forall>row\<in>set (item_dense_unique di). length row = length (item_dense_col di)"
      "sort (user_dense_col di @ item_dense_col di) =
         map int [0..<length (user_dense_col di @ item_dense_col di)]"
    and draws: "\<forall>k. 0 \<le> randint rng seed k \<and> randint rng seed k < n_items_info di"
    and fair: "\<forall>u\<in>set (user_indices ds). \<forall>k. \<exists>j\<ge>k. randint rng seed j \<notin> train_user_consumed ds u"
    and perm: "sort (permutation rng seed (nat (int n * (num_neg self + 1)))) =
         map int [0..<nat (int n * (num_neg self + 1))]"
  shows "\<exists>sparse dense_opt label.
     call rng self seed dense random = Some (Inr (sparse, dense_opt, label))"
proof -
  let ?total = "nat (int n * (num_neg self + 1))"
  let ?mask = "permutation rng seed ?total"
  have total: "?total = n * nat (num_neg self + 1)"
    using nn by (simp add: nat_mult_distrib)
  from label_negative_sampling_returns [OF nn] obtain label0 where
    l0: "label_negative_sampling self = Inr label0" by blast
  have ll: "length label0 = ?total"
    using label_negative_sampling_Inr(1) [OF l0] unfolding n_def ds_def by simp
  from sample_items_returns [OF nn draws [unfolded di_def] fair [unfolded ds_def]]
  obtain items where
    it: "sample_items (randint rng seed) self = Some (Inr items)" and
    li: "length items = n * nat (num_neg self + 1)" and
    si: "set items \<subseteq> set (item_indices ds) \<union> range (randint rng seed)"
    using lens(1,2) unfolding ds_def by auto
  have ne: "items \<noteq> []" using li n0 nn by auto
  have ir: "\<forall>i\<in>set items. 0 \<le> i \<and> nat i < nat (n_items_info di)"
    using si item_rng draws by auto
  have m: "0 \<le> num_neg self + 1" using nn by simp
  have ir_s: "\<forall>i\<in>set items. 0 \<le> i \<and> nat i < length (item_sparse_unique di)"
    using ir uniq_len(1) by simp
  have ir_d: "\<forall>i\<in>set items. 0 \<le> i \<and> nat i < length (item_dense_unique di)"
    using ir uniq_len(2) by simp
  have len_s: "length (sparse_indices ds) * nat (num_neg self + 1) = length items"
    using li lens(3) by simp
  have len_d: "length (dense_values ds) * nat (num_neg self + 1) = length items"
    using li lens(4) by simp
  from attribute_block_returns [OF sparse_w m ir_s len_s] ne
  obtain sparse0 where s0: "sparse_negative_sampling self items = Inr sparse0"
    unfolding ds_def di_def by (auto simp: sparse_negative_sampling_def Let_def)
  from attribute_block_returns [OF dense_w m ir_d len_d] ne
  obtain dense0 where d0: "dense_negative_sampling self items = Inr dense0"
    unfolding ds_def di_def by (auto simp: dense_negative_sampling_def Let_def)
  have ls: "length sparse0 = ?total" "length dense0 = ?total"
    using sparse_negative_sampling_rows [OF s0] dense_negative_sampling_rows [OF d0] li total
    by simp_all
  have mk: "\<forall>i\<in>set ?mask. 0 \<le> i \<and> nat i < ?total"
    using perm_entries [OF perm] by blast
  from fancy_index_returns [of ?mask label0] mk ll obtain label where
    l: "fancy_index label0 ?mask = Inr label" by auto
  from fancy_index_returns [of ?mask sparse0] mk ls(1) obtain sparse where
    s: "fancy_index sparse0 ?mask = Inr sparse" by auto
  from fancy_index_returns [of ?mask dense0] mk ls(2) obtain d where
    d: "fancy_index dense0 ?mask = Inr d" by auto
  show ?thesis
    using l0 l it s0 s d0 d unfolding n_def ds_def
    by (simp add: call_def Let_def)
qed

section \<open>Concrete runs\<close>

lemmas fit_eval = fit_def FeatureBuilder_init_def Let_def np_unique_def unique_inverse_def
  fit_arrays_def np_array_T_def numeral_eq_Suc defaultdict_get_def

lemmas transform_eval = transform_def transform_arrays_def fillna_def series_map_def
  defaultdict_touch_def

lemmas sampler_eval = call_def sample_items_def sparse_negative_sampling_def dense_negative_sampling_def
  label_negative_sampling_def Let_def np_take_cols_def fancy_index_def np_index_def np_repeat_rows_def
  np_argsort_def np_concatenate_cols_def reject_loop.simps slice_assign.simps numeral_eq_Suc

lemmas example_defs = example_rng_def example_sampler_def example_dataset_def example_data_info_def

lemma example_sample_items:
  "sample_items (randint example_rng 42) example_sampler = Some (Inr [1, 2, 0, 2])"
  by (simp add: example_defs sampler_eval)

lemma example_sparse:
  "sparse_negative_sampling example_sampler [1, 2, 0, 2] =
     Inr [[31, 10], [32, 10], [30, 11], [32, 11]]"
  by (simp add: example_defs sampler_eval)

lemma example_dense:
  "dense_negative_sampling example_sampler [1, 2, 0, 2] =
     Inr [[0.5, 7], [0.5, 8], [1.5, 6], [1.5, 8]]"
  by (simp add: example_defs sampler_eval)

lemma example_unshuffled:
  "call example_rng example_sampler 42 True False =
     Some (Inr ([[31, 10], [32, 10], [30, 11], [32, 11]],
                Some [[0.5, 7], [0.5, 8], [1.5, 6], [1.5, 8]], [1, 0, 1, 0]))"
  by (simp add: example_defs sampler_eval)

lemma example_shuffled:
  "call example_rng example_sampler 42 True True =
     Some (Inr ([[30, 11], [31, 10], [32, 11], [32, 10]],
                Some [[1.5, 6], [0.5, 7], [1.5, 8], [0.5, 8]], [1, 1, 0, 0]))"
  by (simp add: example_defs sampler_eval)

section \<open>Verified properties\<close>

subsection \<open>Shuffle consistency\<close>

text \<open>
  C1 (shuffle consistency). Let \<open>random_mask\<close>, the permutation drawn in
  line 17, be a permutation of \<open>0, \<dots>, total_length - 1\<close>, and let \<open>__call__\<close>
  with \<open>random=True\<close> return. Then the call with \<open>random=False\<close> (same generator
  and seed) returns too, and for every row position \<open>k\<close> the label, the sparse
  row and (when produced) the dense row at \<open>k\<close> of the shuffled result are the
  label, the sparse row and the dense row at the one position \<open>random_mask[k]\<close>
  of the unshuffled result; all arrays have \<open>total_length\<close> rows.
\<close>

theorem call_shuffle_consistent:
  fixes rng :: np_random and self :: NegativeSamplingFeat and seed :: int
  defines "total_length \<equiv> nat (int (dataset_len (dataset self)) * (num_neg self + 1))"
    and "random_mask \<equiv> permutation rng seed (nat (int (dataset_len (dataset self)) * (num_neg self + 1)))"
  assumes perm: "sort random_mask = map int [0..<total_length]"
    and ret: "call rng self seed dense True = Some (Inr (sparse, dense_opt, label))"
  shows "\<exists>sparse0 dense0 label0.
     call rng self seed dense False = Some (Inr (sparse0, dense0, label0)) \<and>
     length label0 = total_length \<and> length label = total_length \<and> length sparse = total_length \<and>
     (\<forall>k<total_length. 0 \<le> random_mask ! k \<and> nat (random_mask ! k) < total_length \<and> nat (random_mask ! k) < length sparse0 \<and>
        label ! k = label0 ! nat (random_mask ! k) \<and> sparse ! k = sparse0 ! nat (random_mask ! k)) \<and>
     (if dense
      then \<exists>d d0. dense_opt = Some d \<and> dense0 = Some d0 \<and> length d = total_length \<and>
             (\<forall>k<total_length. nat (random_mask ! k) < length d0 \<and> d ! k = d0 ! nat (random_mask ! k))
      else dense_opt = None \<and> dense0 = None)"
proof -
  from ret obtain label0 items sparse0 where
    l0: "label_negative_sampling self = Inr label0" and
    l: "fancy_index label0 random_mask = Inr label" and
    it: "sample_items (randint rng seed) self = Some (Inr items)" and
    s0: "sparse_negative_sampling self items = Inr sparse0" and
    s: "fancy_index sparse0 random_mask = Inr sparse"
    unfolding call_def Let_def random_mask_def
    by (auto split: sum.splits option.splits if_splits)
  have len0: "length label0 = total_length"
    using label_negative_sampling_Inr(1) [OF l0] unfolding total_length_def by simp
  note L = fancy_index_perm [OF l perm]
  note S = fancy_index_perm [OF s perm]
  have rows: "\<forall>k<total_length. 0 \<le> random_mask ! k \<and> nat (random_mask ! k) < total_length \<and> nat (random_mask ! k) < length sparse0 \<and>
        label ! k = label0 ! nat (random_mask ! k) \<and> sparse ! k = sparse0 ! nat (random_mask ! k)"
    using L(2) S(2) len0 by simp
  show ?thesis
  proof (cases dense)
    case False
    have "call rng self seed dense False = Some (Inr (sparse0, None, label0))"
      using False l0 it s0 by (simp add: call_def Let_def)
    moreover have "dense_opt = None"
      using ret False l0 l it s0 s by (simp add: call_def Let_def random_mask_def)
    ultimately show ?thesis using False len0 L(1) S(1) rows by simp
  next
    case True
    from ret True l0 l it s0 s obtain dense0 d where
      d0: "dense_negative_sampling self items = Inr dense0" and
      d: "fancy_index dense0 random_mask = Inr d" and
      dopt: "dense_opt = Some d"
      unfolding call_def Let_def random_mask_def
      by (auto split: sum.splits)
    note D = fancy_index_perm [OF d perm]
    have "call rng self seed dense False = Some (Inr (sparse0, Some dense0, label0))"
      using True l0 it s0 d0 by (simp add: call_def Let_def)
    moreover have "\<forall>k<total_length. nat (random_mask ! k) < length dense0 \<and> d ! k = dense0 ! nat (random_mask ! k)"
      using D(2) by simp
    ultimately show ?thesis using True len0 L(1) S(1) D(1) rows dopt by simp
  qed
qed

theorem call_shuffle_consistent_witness:
  "sort (permutation example_rng 42 4) = map int [0..<4] \<and>
   call example_rng example_sampler 42 True True =
     Some (Inr ([[30, 11], [31, 10], [32, 11], [32, 10]],
                Some [[1.5, 6], [0.5, 7], [1.5, 8], [0.5, 8]], [1, 1, 0, 0])) \<and>
   call example_rng example_sampler 42 True False =
     Some (Inr ([[31, 10], [32, 10], [30, 11], [32, 11]],
                Some [[0.5, 7], [0.5, 8], [1.5, 6], [1.5, 8]], [1, 0, 1, 0])) \<and>
   [1, 1, 0, 0::real] ! 2 = [1, 0, 1, 0] ! nat (permutation example_rng 42 4 ! 2) \<and>
   [[30, 11], [31, 10], [32, 11], [32, 10::int]] ! 2 =
     [[31, 10], [32, 10], [30, 11], [32, 11]] ! nat (permutation example_rng 42 4 ! 2) \<and>
   [[1.5, 6], [0.5, 7], [1.5, 8], [0.5, 8::real]] ! 2 =
     [[0.5, 7], [0.5, 8], [1.5, 6], [1.5, 8]] ! nat (permutation example_rng 42 4 ! 2)"
proof -
  let ?n = "nat (int (dataset_len (dataset example_sampler)) * (num_neg example_sampler + 1))"
  have n: "?n = 4" by (simp add: example_defs)
  have h1: "sort (permutation example_rng 42 ?n) = map int [0..<?n]"
    unfolding n by (simp add: example_defs numeral_eq_Suc)
  from call_shuffle_consistent [OF h1 example_shuffled]
  obtain sparse0 dense0 label0 where
    u: "call example_rng example_sampler 42 True False = Some (Inr (sparse0, dense0, label0))" and
    rows: "\<forall>k<?n. 0 \<le> permutation example_rng 42 ?n ! k \<and>
        nat (permutation example_rng 42 ?n ! k) < ?n \<and>
        nat (permutation example_rng 42 ?n ! k) < length sparse0 \<and>
        [1, 1, 0, 0] ! k = label0 ! nat (permutation example_rng 42 ?n ! k) \<and>
        [[30, 11], [31, 10], [32, 11], [32, 10]] ! k = sparse0 ! nat (permutation example_rng 42 ?n ! k)" and
    dense: "\<exists>d d0. Some [[1.5, 6], [0.5, 7], [1.5, 8], [0.5, 8]] = Some d \<and> dense0 = Some d0 \<and>
        length d = ?n \<and>
        (\<forall>k<?n. nat (permutation example_rng 42 ?n ! k) < length d0 \<and>
           d ! k = d0 ! nat (permutation example_rng 42 ?n ! k))"
    by auto
  from u example_unshuffled have
    e: "sparse0 = [[31, 10], [32, 10], [30, 11], [32, 11]]"
      "dense0 = Some [[0.5, 7], [0.5, 8], [1.5, 6], [1.5, 8]]" "label0 = [1, 0, 1, 0]"
    by simp_all
  have k: "2 < ?n" unfolding n by simp
  from rows [rule_format, OF k] have
    r: "[1, 1, 0, 0::real] ! 2 = [1, 0, 1, 0] ! nat (permutation example_rng 42 4 ! 2)"
      "[[30, 11], [31, 10], [32, 11], [32, 10::int]] ! 2 =
        [[31, 10], [32, 10], [30, 11], [32, 11]] ! nat (permutation example_rng 42 4 ! 2)"
    unfolding e n by blast+
  from dense obtain d0 where
    "dense0 = Some d0"
    "\<forall>k<?n. nat (permutation example_rng 42 ?n ! k) < length d0 \<and>
       [[1.5, 6], [0.5, 7], [1.5, 8], [0.5, 8::real]] ! k = d0 ! nat (permutation example_rng 42 ?n ! k)"
    by auto
  from this(2) [rule_format, OF k] this(1) have
    d: "[[1.5, 6], [0.5, 7], [1.5, 8], [0.5, 8::real]] ! 2 =
        [[0.5, 7], [0.5, 8], [1.5, 6], [1.5, 8]] ! nat (permutation example_rng 42 4 ! 2)"
    unfolding e n by simp
  from h1 [unfolded n] example_shuffled example_unshuffled r d show ?thesis by blast
qed

subsection \<open>Sampling cardinality\<close>

text \<open>
  C2 (sampling cardinality). Let \<open>num_neg \<ge> 0\<close>, let every integer drawn lie in
  \<open>[0, n_items)\<close>, and let the sequence of draws leave the Consumed Set of
  every user of the dataset again and again (which needs that set not to
  cover \<open>[0, n_items)\<close>, and has probability one for uniform draws then). Then
  \<open>sample_items\<close> returns; for the \<open>p\<close>-th interaction \<open>(u, i)\<close> it emits \<open>i\<close>
  at position \<open>p * (num_neg + 1)\<close> and after it \<open>num_neg\<close> item indices inside
  \<open>[0, n_items)\<close> and outside the Consumed Set of \<open>u\<close>; the number of emitted
  indices is the number of interactions times \<open>num_neg + 1\<close>, which is
  \<open>len(dataset) * (num_neg + 1)\<close> when both index lists have \<open>len(dataset)\<close>
  entries.
\<close>

theorem sample_items_correct:
  fixes self :: NegativeSamplingFeat and draw :: "nat \<Rightarrow> int"
  defines "users \<equiv> user_indices (dataset self)"
    and "items0 \<equiv> item_indices (dataset self)"
    and "consumed \<equiv> train_user_consumed (dataset self)"
    and "factor \<equiv> nat (num_neg self + 1)"
  assumes nn: "0 \<le> num_neg self"
    and range: "\<forall>k. 0 \<le> draw k \<and> draw k < n_items_info (data_info self)"
    and fair: "\<forall>u\<in>set users. \<forall>k. \<exists>j\<ge>k. draw j \<notin> consumed u"
  shows "\<exists>items. sample_items draw self = Some (Inr items) \<and>
     length items = min (length users) (length items0) * factor \<and>
     (\<forall>p<min (length users) (length items0).
        items ! (p * factor) = items0 ! p \<and>
        (\<forall>q. 1 \<le> q \<and> q \<le> nat (num_neg self) \<longrightarrow>
           0 \<le> items ! (p * factor + q) \<and>
           items ! (p * factor + q) < n_items_info (data_info self) \<and>
           items ! (p * factor + q) \<notin> consumed (users ! p))) \<and>
     (length users = dataset_len (dataset self) \<and> length items0 = dataset_len (dataset self) \<longrightarrow>
        int (length items) = int (dataset_len (dataset self)) * (num_neg self + 1)) \<and>
     (\<forall>out. sparse_negative_sampling self items = Inr out \<longrightarrow> length out = length items) \<and>
     (\<forall>out. dense_negative_sampling self items = Inr out \<longrightarrow> length out = length items)"
proof -
  let ?pairs = "zip users items0"
  let ?m = "nat (num_neg self)"
  have f: "factor = Suc ?m" using nn by (simp add: factor_def)
  have "\<forall>ui\<in>set ?pairs. \<forall>k. \<exists>j\<ge>k. draw j \<notin> consumed (fst ui)"
    using fair by (auto dest: set_zip_leftD)
  from sample_pairs_terminates [OF this] obtain items k' where
    sp: "sample_pairs draw consumed ?m ?pairs 0 = Some (items, k')" by fastforce
  have "0 < n_items_info (data_info self)" using range by (meson le_less_trans)
  then have si: "sample_items draw self = Some (Inr items)"
    using sp by (simp add: sample_items_def Let_def users_def items0_def consumed_def)
  from sample_pairs_Some [OF sp] have
    len: "length items = length ?pairs * Suc ?m" and
    pos: "\<forall>p<length ?pairs.
      items ! (p * Suc ?m) = snd (?pairs ! p) \<and>
      (\<forall>q. 1 \<le> q \<and> q \<le> ?m \<longrightarrow>
         items ! (p * Suc ?m + q) \<notin> consumed (fst (?pairs ! p)) \<and>
         (\<exists>j. items ! (p * Suc ?m + q) = draw j))"
    by blast+
  have a: "length items = min (length users) (length items0) * factor"
    using len f by simp
  have b: "items ! (p * factor) = items0 ! p \<and>
        (\<forall>q. 1 \<le> q \<and> q \<le> ?m \<longrightarrow>
           0 \<le> items ! (p * factor + q) \<and>
           items ! (p * factor + q) < n_items_info (data_info self) \<and>
           items ! (p * factor + q) \<notin> consumed (users ! p))"
    if p: "p < min (length users) (length items0)" for p
  proof -
    have p': "p < length ?pairs" using p by simp
    have z: "fst (?pairs ! p) = users ! p" "snd (?pairs ! p) = items0 ! p"
      using p by simp_all
    from pos p' have
      p1: "items ! (p * Suc ?m) = snd (?pairs ! p)" and
      p2: "\<forall>q. 1 \<le> q \<and> q \<le> ?m \<longrightarrow>
         items ! (p * Suc ?m + q) \<notin> consumed (fst (?pairs ! p)) \<and>
         (\<exists>j. items ! (p * Suc ?m + q) = draw j)"
      by blast+
    have "0 \<le> items ! (p * factor + q) \<and>
           items ! (p * factor + q) < n_items_info (data_info self) \<and>
           items ! (p * factor + q) \<notin> consumed (users ! p)"
      if q: "1 \<le> q \<and> q \<le> ?m" for q
    proof -
      from p2 q obtain j where "items ! (p * Suc ?m + q) \<notin> consumed (fst (?pairs ! p))"
        "items ! (p * Suc ?m + q) = draw j" by blast
      then show ?thesis using range z f by simp
    qed
    then show ?thesis using p1 z f by simp
  qed
  have c: "int (length items) = int (dataset_len (dataset self)) * (num_neg self + 1)"
    if "length users = dataset_len (dataset self) \<and> length items0 = dataset_len (dataset self)"
  proof -
    have "int factor = num_neg self + 1" using nn by (simp add: factor_def)
    then show ?thesis using a that by simp
  qed
  from si a b c sparse_negative_sampling_rows dense_negative_sampling_rows
  show ?thesis by blast
qed

theorem sample_items_correct_witness:
  "0 \<le> num_neg example_sampler \<and>
   sample_items (randint example_rng 42) example_sampler = Some (Inr [1, 2, 0, 2]) \<and>
   [1, 2, 0, 2] ! (0 * nat (num_neg example_sampler + 1)) = item_indices example_dataset ! 0 \<and>
   [1, 2, 0, 2] ! (1 * nat (num_neg example_sampler + 1)) = item_indices example_dataset ! 1 \<and>
   [1, 2, 0, 2] ! (0 * nat (num_neg example_sampler + 1) + 1) \<notin> train_user_consumed example_dataset 0 \<and>
   [1, 2, 0, 2] ! (1 * nat (num_neg example_sampler + 1) + 1) \<notin> train_user_consumed example_dataset 1 \<and>
   int (length [1, 2, 0, 2::int]) = int (dataset_len example_dataset) * (num_neg example_sampler + 1)"
proof -
  let ?draw = "randint example_rng 42"
  have h1: "0 \<le> num_neg example_sampler" by (simp add: example_defs)
  have h2: "\<forall>k. 0 \<le> ?draw k \<and> ?draw k < n_items_info (data_info example_sampler)"
    by (simp add: example_defs)
  have h3: "\<forall>u\<in>set (user_indices (dataset example_sampler)). \<forall>k. \<exists>j\<ge>k.
      ?draw j \<notin> train_user_consumed (dataset example_sampler) u"
  proof (intro ballI allI)
    fix u k
    have "k \<le> k + 3 \<and> ?draw (k + 3) \<notin> train_user_consumed (dataset example_sampler) u"
      by (simp add: example_defs)
    then show "\<exists>j\<ge>k. ?draw j \<notin> train_user_consumed (dataset example_sampler) u" by blast
  qed
  from sample_items_correct [OF h1 h2 h3] obtain items where
    a: "sample_items ?draw example_sampler = Some (Inr items)" and
    b: "\<forall>p<min (length (user_indices (dataset example_sampler)))
              (length (item_indices (dataset example_sampler))).
        items ! (p * nat (num_neg example_sampler + 1)) = item_indices (dataset example_sampler) ! p \<and>
        (\<forall>q. 1 \<le> q \<and> q \<le> nat (num_neg example_sampler) \<longrightarrow>
           0 \<le> items ! (p * nat (num_neg example_sampler + 1) + q) \<and>
           items ! (p * nat (num_neg example_sampler + 1) + q) < n_items_info (data_info example_sampler) \<and>
           items ! (p * nat (num_neg example_sampler + 1) + q) \<notin>
             train_user_consumed (dataset example_sampler) (user_indices (dataset example_sampler) ! p))" and
    c: "length (user_indices (dataset example_sampler)) = dataset_len (dataset example_sampler) \<and>
        length (item_indices (dataset example_sampler)) = dataset_len (dataset example_sampler) \<longrightarrow>
        int (length items) = int (dataset_len (dataset example_sampler)) * (num_neg example_sampler + 1)"
    by blast
  from a have items: "items = [1, 2, 0, 2]" using example_sample_items by simp
  have ds: "dataset example_sampler = example_dataset" by (simp add: example_sampler_def)
  have l: "length (user_indices example_dataset) = 2" "length (item_indices example_dataset) = 2"
    "dataset_len example_dataset = 2" "user_indices example_dataset ! 0 = 0"
    "user_indices example_dataset ! 1 = 1" "nat (num_neg example_sampler) = 1"
    by (simp_all add: example_defs)
  have p: "0 < min (length (user_indices example_dataset)) (length (item_indices example_dataset))"
    "1 < min (length (user_indices example_dataset)) (length (item_indices example_dataset))"
    using l by simp_all
  have q: "1 \<le> (1::nat) \<and> 1 \<le> nat (num_neg example_sampler)" using l by simp
  note B0 = b [unfolded ds, rule_format, OF p(1)]
  note B1 = b [unfolded ds, rule_format, OF p(2)]
  have b0: "items ! (0 * nat (num_neg example_sampler + 1)) = item_indices example_dataset ! 0 \<and>
      items ! (0 * nat (num_neg example_sampler + 1) + 1) \<notin> train_user_consumed example_dataset 0"
    using conjunct1 [OF B0] conjunct2 [OF B0, rule_format, OF q] l(4) by simp
  have b1: "items ! (1 * nat (num_neg example_sampler + 1)) = item_indices example_dataset ! 1 \<and>
      items ! (1 * nat (num_neg example_sampler + 1) + 1) \<notin> train_user_consumed example_dataset 1"
    using conjunct1 [OF B1] conjunct2 [OF B1, rule_format, OF q] l(5) by simp
  have c': "int (length items) = int (dataset_len example_dataset) * (num_neg example_sampler + 1)"
    using c l unfolding ds by simp
  from h1 a b0 b1 c' show ?thesis unfolding items by blast
qed

lemma sample_items_saturated:
  assumes "1 \<le> num_neg self" "0 < n_items_info (data_info self)"
    and "(u, i) \<in> set (zip (user_indices (dataset self)) (item_indices (dataset self)))"
    and "\<forall>j. draw j \<in> train_user_consumed (dataset self) u"
  shows "sample_items draw self = None"
proof -
  obtain m where m: "nat (num_neg self) = Suc m"
    using assms(1) by (cases "nat (num_neg self)") auto
  have "u \<in> fst ` set (zip (user_indices (dataset self)) (item_indices (dataset self)))"
    using assms(3) by force
  from sample_pairs_diverges [of u _ draw "train_user_consumed (dataset self)", OF this assms(4)]
  show ?thesis
    using assms(2) m by (simp add: sample_items_def Let_def)
qed

subsection \<open>Out-of-vocabulary fallback\<close>

text \<open>
  C3 (out-of-vocabulary fallback and index range, as the code has it). Let
  \<open>fit\<close> have returned \<open>feature_size = fs\<close> inside the range of \<open>int32\<close>, and let
  \<open>transform\<close> be called on the fitted builder with columns of \<open>test_size\<close>
  entries each (with the identity blocks enabled, identifier sequences of
  \<open>test_size\<close> entries). Then \<open>transform\<close> returns, no row is dropped, and every
  categorical value absent from its column's vocabulary yields the index \<open>fs\<close>.
  If moreover the categorical columns of \<open>fit\<close> have pairwise different names
  (as the keys of a dict have), \<open>transform\<close> is given no more numerical columns
  than \<open>fit\<close> had, and, with the identity blocks enabled, the identifiers are
  inside \<open>[0, n_users)\<close> and \<open>[0, n_items)\<close>, then every index of the returned
  array lies in \<open>[0, fs)\<close> or is \<open>fs\<close> at the place of such an absent categorical
  value.
\<close>

theorem transform_index_range:
  assumes self': "self' = fst (fit self cats nums n uf itf)"
    and ret: "snd (fit self cats nums n uf itf) = Inr (fi, fv, fs)"
    and shapes: "\<forall>kv\<in>set tnums. length (snd kv) = nat ts" "\<forall>kv\<in>set tcats. length (snd kv) = nat ts"
    and idshape: "include_user_item self \<longrightarrow>
       (\<exists>tu ti. tuf = Some tu \<and> titf = Some ti \<and> length tu = nat ts \<and> length ti = nat ts)"
    and int32: "- (2 ^ 31) \<le> fs" "fs < 2 ^ 31"
  shows "\<exists>ti tv. snd (transform self' tcats tnums ts tuf titf) = Inr (ti, tv) \<and>
      (tnums \<noteq> [] \<or> tcats \<noteq> [] \<or> include_user_item self \<longrightarrow> length ti = nat ts) \<and>
      (\<forall>j<length tcats. \<forall>r<nat ts.
          defaultdict_get (val_index_dict self') (fst (tcats ! j)) (snd (tcats ! j) ! r) = None \<longrightarrow>
          ti ! r ! (length tnums + j) = fs) \<and>
      (distinct (map fst cats) \<and> length tnums \<le> length nums \<and>
       (include_user_item self \<longrightarrow>
          (\<exists>tu ti' nu ni. tuf = Some tu \<and> titf = Some ti' \<and>
             n_users self = Some nu \<and> n_items self = Some ni \<and>
             (\<forall>u\<in>set tu. 0 \<le> u \<and> u < nu) \<and> (\<forall>i\<in>set ti'. 0 \<le> i \<and> i < ni))) \<longrightarrow>
       (\<forall>r<length ti. \<forall>c<length (ti ! r).
          (0 \<le> ti ! r ! c \<and> ti ! r ! c < fs) \<or>
          (ti ! r ! c = fs \<and> length tnums \<le> c \<and> c < length tnums + length tcats \<and>
           defaultdict_get (val_index_dict self') (fst (tcats ! (c - length tnums)))
             (snd (tcats ! (c - length tnums)) ! r) = None)))"
proof -
  have fs: "feature_size self' = fs"
    unfolding self' by (rule fit_returned(1) [OF ret])
  have inc: "include_user_item self' = include_user_item self" and nus: "n_users self' = n_users self"
    unfolding self' by (simp_all add: fit_config)
  define tc where "tc = total_count self'"
  have tc_ge: "int (length nums) \<le> tc"
  proof -
    have "0 \<le> (\<Sum>kv\<leftarrow>cats. int (card (set (snd kv))))" by (rule sum_list_nonneg) auto
    then show ?thesis unfolding tc_def self' fit_total_count by simp
  qed
  have fs_eq: "if include_user_item self
         then \<exists>nu ni. n_users self = Some nu \<and> n_items self = Some ni \<and> fs = tc + nu + ni
         else fs = tc"
    using fit_returned(2) [OF ret] unfolding tc_def self' .
  have "include_user_item self' \<longrightarrow>
       (\<exists>tu ti nu. tuf = Some tu \<and> titf = Some ti \<and> n_users self' = Some nu \<and>
          length tu = nat ts \<and> length ti = nat ts)"
  proof
    assume "include_user_item self'"
    then have i: "include_user_item self" using inc by simp
    from fs_eq i obtain nu where "n_users self = Some nu" by auto
    moreover from idshape i obtain tu ti where
      "tuf = Some tu" "titf = Some ti" "length tu = nat ts" "length ti = nat ts" by blast
    ultimately show "\<exists>tu ti nu. tuf = Some tu \<and> titf = Some ti \<and> n_users self' = Some nu \<and>
          length tu = nat ts \<and> length ti = nat ts"
      using nus by simp
  qed
  from transform_returns [OF shapes this] obtain ti tv where
    tret: "snd (transform self' tcats tnums ts tuf titf) = Inr (ti, tv)" and
    tlen: "tnums \<noteq> [] \<or> tcats \<noteq> [] \<or> include_user_item self \<longrightarrow> length ti = nat ts"
    using inc by auto
  let ?catcol = "\<lambda>kv. fillna fs (series_map (defaultdict_get (val_index_dict self') (fst kv)) (snd kv))"
  from transform_Inr [OF tret] obtain rows idcols where
    rows: "np_array_T (map (\<lambda>j. replicate (nat ts) (int j)) [0..<length tnums] @
                 map ?catcol tcats @ idcols) = Inr rows" and
    ti: "ti = map (map astype_int32) rows" and
    idcols: "if include_user_item self
      then \<exists>tu ti nu. tuf = Some tu \<and> titf = Some ti \<and> n_users self = Some nu \<and>
             idcols = [map (\<lambda>u. u + tc) tu, map (\<lambda>i. i + tc + nu) ti]
      else idcols = []"
    unfolding fs inc nus tc_def by blast
  let ?cols = "map (\<lambda>j. replicate (nat ts) (int j)) [0..<length tnums] @ map ?catcol tcats @ idcols"
  let ?unseen = "\<lambda>j r. defaultdict_get (val_index_dict self') (fst (tcats ! j)) (snd (tcats ! j) ! r) = None"
  have idlen: "\<forall>col\<in>set idcols. length col = nat ts"
  proof (cases "include_user_item self")
    case False
    then show ?thesis using idcols by simp
  next
    case True
    from idshape True obtain tu ti' where
      o: "tuf = Some tu" "titf = Some ti'" "length tu = nat ts" "length ti' = nat ts" by blast
    from idcols True o(1,2) obtain nu where
      "idcols = [map (\<lambda>u. u + tc) tu, map (\<lambda>i. i + tc + nu) ti']" by auto
    then show ?thesis using o(3,4) by simp
  qed
  have collen: "\<forall>c<length ?cols. length (?cols ! c) = nat ts"
  proof -
    have "\<forall>col\<in>set (map ?catcol tcats). length col = nat ts"
      using shapes(2) by (simp add: fillna_def series_map_def)
    then have "\<forall>col\<in>set ?cols. length col = nat ts"
      using idlen by auto
    then show ?thesis using nth_mem by blast
  qed
  have oov: "ti ! r ! (length tnums + j) = fs"
    if j: "j < length tcats" and r: "r < nat ts" and u: "?unseen j r" for j r
  proof -
    have c: "length tnums + j < length ?cols" using j by simp
    have rc: "r < length (?cols ! (length tnums + j))" using collen c r by auto
    from np_array_T_nth [OF rows c rc]
    have r': "r < length rows" and len: "length (rows ! r) = length ?cols"
      and eq: "rows ! r ! (length tnums + j) = ?cols ! (length tnums + j) ! r"
      by blast+
    have rj: "r < length (snd (tcats ! j))" using shapes(2) j r by simp
    have e: "?cols ! (length tnums + j) ! r = fs"
      using j rj u by (simp add: nth_append fillna_def series_map_def)
    have "astype_int32 fs = fs" using int32 by (rule astype_int32_id)
    then show ?thesis using ti r' c len eq e by simp
  qed
  have main: "(0 \<le> ti ! r ! c \<and> ti ! r ! c < fs) \<or>
          (ti ! r ! c = fs \<and> length tnums \<le> c \<and> c < length tnums + length tcats \<and>
           ?unseen (c - length tnums) r)"
    if dist: "distinct (map fst cats)" and ncols: "length tnums \<le> length nums"
      and ident: "include_user_item self \<longrightarrow>
          (\<exists>tu ti' nu ni. tuf = Some tu \<and> titf = Some ti' \<and>
             n_users self = Some nu \<and> n_items self = Some ni \<and>
             (\<forall>u\<in>set tu. 0 \<le> u \<and> u < nu) \<and> (\<forall>i\<in>set ti'. 0 \<le> i \<and> i < ni))"
      and r: "r < length ti" and c: "c < length (ti ! r)" for r c
  proof -
    have idfacts: "\<exists>tu ti' nu ni. tuf = Some tu \<and> titf = Some ti' \<and>
          length tu = nat ts \<and> length ti' = nat ts \<and>
          (\<forall>u\<in>set tu. 0 \<le> u \<and> u < nu) \<and> (\<forall>i\<in>set ti'. 0 \<le> i \<and> i < ni) \<and>
          fs = tc + nu + ni \<and>
          idcols = [map (\<lambda>u. u + tc) tu, map (\<lambda>i. i + tc + nu) ti']"
      if inc': "include_user_item self"
    proof -
      from ident inc' obtain tu ti' nu ni where
        o: "tuf = Some tu" "titf = Some ti'" "n_users self = Some nu" "n_items self = Some ni"
          "\<forall>u\<in>set tu. 0 \<le> u \<and> u < nu" "\<forall>i\<in>set ti'. 0 \<le> i \<and> i < ni"
        by blast
      from idshape inc' o(1,2) have l: "length tu = nat ts" "length ti' = nat ts" by auto
      have "fs = tc + nu + ni" using fs_eq inc' o(3,4) by simp
      moreover have "idcols = [map (\<lambda>u. u + tc) tu, map (\<lambda>i. i + tc + nu) ti']"
        using idcols inc' o(1,2,3) by simp
      ultimately show ?thesis using o l by blast
    qed
    have entry: "(0 \<le> ?cols ! c ! r \<and> ?cols ! c ! r < fs) \<or>
          (?cols ! c ! r = fs \<and> 0 \<le> fs \<and> length tnums \<le> c \<and> c < length tnums + length tcats \<and>
           ?unseen (c - length tnums) r)"
      if c: "c < length ?cols" and r: "r < nat ts" for c r
    proof -
      have tc_le: "tc \<le> fs"
      proof (cases "include_user_item self")
        case False
        then show ?thesis using fs_eq by simp
      next
        case True
        from idfacts [OF True] obtain tu ti' nu ni where
          o: "length tu = nat ts" "length ti' = nat ts"
            "\<forall>u\<in>set tu. 0 \<le> u \<and> u < nu" "\<forall>i\<in>set ti'. 0 \<le> i \<and> i < ni" "fs = tc + nu + ni"
          by blast
        have "tu ! r \<in> set tu" "ti' ! r \<in> set ti'" using r o(1,2) by simp_all
        then have "0 \<le> tu ! r \<and> tu ! r < nu" "0 \<le> ti' ! r \<and> ti' ! r < ni" using o(3,4) by blast+
        then show ?thesis using o(5) by simp
      qed
      consider (num) "c < length tnums"
        | (cat) "length tnums \<le> c" "c < length tnums + length tcats"
        | (ident) "length tnums + length tcats \<le> c"
        by linarith
      then show ?thesis
      proof cases
        case num
        then have "?cols ! c ! r = int c" using r by (simp add: nth_append)
        moreover have "int c < fs" using num ncols tc_ge tc_le by linarith
        ultimately show ?thesis by simp
      next
        case cat
        let ?j = "c - length tnums"
        have j: "?j < length tcats" using cat by linarith
        have rj: "r < length (snd (tcats ! ?j))" using shapes(2) j r by simp
        have e: "?cols ! c ! r =
          (case defaultdict_get (val_index_dict self') (fst (tcats ! ?j)) (snd (tcats ! ?j) ! r) of
             None \<Rightarrow> fs | Some idx \<Rightarrow> idx)"
          using cat j rj by (simp add: nth_append fillna_def series_map_def)
        show ?thesis
        proof (cases "defaultdict_get (val_index_dict self') (fst (tcats ! ?j)) (snd (tcats ! ?j) ! r)")
          case None
          then show ?thesis using e cat tc_le tc_ge by simp
        next
          case (Some idx)
          from defaultdict_get_Some [OF Some] obtain m where
            "val_index_dict self' (fst (tcats ! ?j)) = Some m" "m (snd (tcats ! ?j) ! r) = Some idx"
            by blast
          from vocabulary_range [OF dist this [unfolded self']]
          have "int (length nums) \<le> idx" "idx < tc" unfolding tc_def self' by simp_all
          then show ?thesis using e Some tc_le by simp
        qed
      next
        case ident
        then have inc': "include_user_item self"
          using c idcols by (auto split: if_splits)
        from idfacts [OF inc'] obtain tu ti' nu ni where
          o: "length tu = nat ts" "length ti' = nat ts"
            "\<forall>u\<in>set tu. 0 \<le> u \<and> u < nu" "\<forall>i\<in>set ti'. 0 \<le> i \<and> i < ni" "fs = tc + nu + ni"
            "idcols = [map (\<lambda>u. u + tc) tu, map (\<lambda>i. i + tc + nu) ti']"
          by blast
        have mem: "tu ! r \<in> set tu" "ti' ! r \<in> set ti'" using r o(1,2) by simp_all
        have b: "0 \<le> tu ! r \<and> tu ! r < nu" "0 \<le> ti' ! r \<and> ti' ! r < ni"
          using o(3,4) mem by blast+
        have "c = length tnums + length tcats \<or> c = Suc (length tnums + length tcats)"
          using c ident o(6) by auto
        then show ?thesis
        proof
          assume "c = length tnums + length tcats"
          then have "?cols ! c ! r = tu ! r + tc"
            using o(6,1) r by (simp add: nth_append)
          then show ?thesis using b o(5) tc_ge by simp
        next
          assume "c = Suc (length tnums + length tcats)"
          then have "?cols ! c ! r = ti' ! r + tc + nu"
            using o(6,2) r by (simp add: nth_append)
          then show ?thesis using b o(5) tc_ge by simp
        qed
      qed
    qed
    have r': "r < length rows" using r ti by simp
    from np_array_T_rows [OF rows r']
    have len: "length (rows ! r) = length ?cols"
      and nth: "\<forall>c<length ?cols. r < length (?cols ! c) \<and> rows ! r ! c = ?cols ! c ! r"
      by blast+
    have c': "c < length ?cols" using c r' len ti by simp
    have rts: "r < nat ts" using nth c' collen by auto
    have eq: "rows ! r ! c = ?cols ! c ! r" using nth c' by blast
    have "astype_int32 (?cols ! c ! r) = ?cols ! c ! r"
      using entry [OF c' rts] int32(2) by (intro astype_int32_id) auto
    then have "ti ! r ! c = ?cols ! c ! r"
      using ti r' c' len eq by simp
    then show ?thesis using entry [OF c' rts] by auto
  qed
  show ?thesis
    using tret tlen main oov by blast
qed

theorem transform_index_range_witness:
  "snd (fit (FeatureBuilder_init False True (Some 2) (Some 3))
          [(''city'', [20, 10::nat])] [(''age'', [1, 2])] 2 (Some [0, 1]) (Some [2, 0]))
     = Inr ([[0, 2, 3, 7], [0, 1, 4, 5]], [[1, 1, 1, 1], [2, 1, 1, 1]], 8) \<and>
   - (2 ^ 31) \<le> (8::int) \<and> (8::int) < 2 ^ 31 \<and>
   defaultdict_get (val_index_dict (fst (fit (FeatureBuilder_init False True (Some 2) (Some 3))
          [(''city'', [20, 10::nat])] [(''age'', [1, 2])] 2 (Some [0, 1]) (Some [2, 0]))))
      ''city'' 99 = None \<and>
   snd (transform (fst (fit (FeatureBuilder_init False True (Some 2) (Some 3))
          [(''city'', [20, 10::nat])] [(''age'', [1, 2])] 2 (Some [0, 1]) (Some [2, 0])))
        [(''city'', [10, 99])] [(''age'', [7, 8])] 2 (Some [1, 0]) (Some [0, 1]))
     = Inr ([[0, 1, 4, 5], [0, 8, 3, 6]], [[7, 1, 1, 1], [8, 1, 1, 1]]) \<and>
   [[0, 1, 4, 5], [0, 8, 3, 6]] ! 1 ! (length [(''age'', [7, 8::real])] + 0) = (8::int) \<and>
   distinct (map fst [(''city'', [20, 10::nat])]) \<and>
   length [(''age'', [7, 8::real])] \<le> length [(''age'', [1, 2::real])] \<and>
   list_all (\<lambda>u. 0 \<le> u \<and> u < (2::int)) [1, 0] \<and> list_all (\<lambda>i. 0 \<le> i \<and> i < (3::int)) [0, 1] \<and>
   list_all (list_all (\<lambda>x. 0 \<le> x \<and> x \<le> (8::int))) [[0, 1, 4, 5], [0, 8, 3, 6]]"
proof -
  let ?init = "FeatureBuilder_init False True (Some 2) (Some 3) :: nat FeatureBuilder"
  let ?cats = "[(''city'', [20, 10::nat])]"
  let ?nums = "[(''age'', [1, 2::real])]"
  let ?tcats = "[(''city'', [10, 99::nat])]"
  let ?tnums = "[(''age'', [7, 8::real])]"
  let ?b = "fst (fit ?init ?cats ?nums 2 (Some [0, 1]) (Some [2, 0]))"
  have h1: "?b = fst (fit ?init ?cats ?nums 2 (Some [0, 1]) (Some [2, 0]))" by (rule refl)
  have h2: "snd (fit ?init ?cats ?nums 2 (Some [0, 1]) (Some [2, 0]))
     = Inr ([[0, 2, 3, 7], [0, 1, 4, 5]], [[1, 1, 1, 1], [2, 1, 1, 1]], 8)"
    by (simp add: fit_eval)
  have h3: "\<forall>kv\<in>set ?tnums. length (snd kv) = nat 2" by simp
  have h4: "\<forall>kv\<in>set ?tcats. length (snd kv) = nat 2" by simp
  have h5: "include_user_item ?init \<longrightarrow>
       (\<exists>tu ti. Some [1, 0] = Some tu \<and> Some [0, 1] = Some ti \<and>
          length tu = nat 2 \<and> length ti = nat 2)"
    by simp
  have h6: "- (2 ^ 31) \<le> (8::int)" and h7: "(8::int) < 2 ^ 31" by simp_all
  have u: "defaultdict_get (val_index_dict ?b) (fst (?tcats ! 0)) (snd (?tcats ! 0) ! 1) = None"
    by (simp add: fit_eval)
  have t: "snd (transform ?b ?tcats ?tnums 2 (Some [1, 0]) (Some [0, 1]))
     = Inr ([[0, 1, 4, 5], [0, 8, 3, 6]], [[7, 1, 1, 1], [8, 1, 1, 1]])"
    by (simp add: fit_eval transform_eval)
  have d: "distinct (map fst ?cats)" and n: "length ?tnums \<le> length ?nums" by simp_all
  have iu: "list_all (\<lambda>u. 0 \<le> u \<and> u < (2::int)) [1, 0]"
    and ii: "list_all (\<lambda>i. 0 \<le> i \<and> i < (3::int)) [0, 1]" by simp_all
  have ident: "include_user_item ?init \<longrightarrow>
          (\<exists>tu ti' nu ni. Some [1, 0] = Some tu \<and> Some [0, 1] = Some ti' \<and>
             n_users ?init = Some nu \<and> n_items ?init = Some ni \<and>
             (\<forall>u\<in>set tu. 0 \<le> u \<and> u < nu) \<and> (\<forall>i\<in>set ti'. 0 \<le> i \<and> i < ni))"
    by (simp add: FeatureBuilder_init_def)
  from transform_index_range [OF h1 h2 h3 h4 h5 h6 h7]
  obtain ti tv where r: "snd (transform ?b ?tcats ?tnums 2 (Some [1, 0]) (Some [0, 1])) = Inr (ti, tv)"
    and oov: "\<forall>j<length ?tcats. \<forall>r<nat 2.
          defaultdict_get (val_index_dict ?b) (fst (?tcats ! j)) (snd (?tcats ! j) ! r) = None \<longrightarrow>
          ti ! r ! (length ?tnums + j) = 8"
    and range: "distinct (map fst ?cats) \<and> length ?tnums \<le> length ?nums \<and>
       (include_user_item ?init \<longrightarrow>
          (\<exists>tu ti' nu ni. Some [1, 0] = Some tu \<and> Some [0, 1] = Some ti' \<and>
             n_users ?init = Some nu \<and> n_items ?init = Some ni \<and>
             (\<forall>u\<in>set tu. 0 \<le> u \<and> u < nu) \<and> (\<forall>i\<in>set ti'. 0 \<le> i \<and> i < ni))) \<longrightarrow>
       (\<forall>r<length ti. \<forall>c<length (ti ! r).
          (0 \<le> ti ! r ! c \<and> ti ! r ! c < 8) \<or>
          (ti ! r ! c = 8 \<and> length ?tnums \<le> c \<and> c < length ?tnums + length ?tcats \<and>
           defaultdict_get (val_index_dict ?b) (fst (?tcats ! (c - length ?tnums)))
             (snd (?tcats ! (c - length ?tnums)) ! r) = None))"
    by blast
  from r t have ti: "ti = [[0, 1, 4, 5], [0, 8, 3, 6]]" by simp
  have "ti ! 1 ! (length ?tnums + 0) = 8"
    using oov [rule_format, of 0 1] u by simp
  then have e: "[[0, 1, 4, 5], [0, 8, 3, 6]] ! 1 ! (length ?tnums + 0) = (8::int)"
    unfolding ti .
  from range d n ident have "\<forall>r<length ti. \<forall>c<length (ti ! r).
          (0 \<le> ti ! r ! c \<and> ti ! r ! c < 8) \<or>
          (ti ! r ! c = 8 \<and> length ?tnums \<le> c \<and> c < length ?tnums + length ?tcats \<and>
           defaultdict_get (val_index_dict ?b) (fst (?tcats ! (c - length ?tnums)))
             (snd (?tcats ! (c - length ?tnums)) ! r) = None)"
    by blast
  then have "\<forall>r<length ti. \<forall>c<length (ti ! r). 0 \<le> ti ! r ! c \<and> ti ! r ! c \<le> 8"
    by force
  then have "list_all (list_all (\<lambda>x. 0 \<le> x \<and> x \<le> (8::int))) ti"
    by (simp add: list_all_length)
  then have a: "list_all (list_all (\<lambda>x. 0 \<le> x \<and> x \<le> (8::int))) [[0, 1, 4, 5], [0, 8, 3, 6]]"
    unfolding ti .
  have u': "defaultdict_get (val_index_dict ?b) ''city'' 99 = None" using u by simp
  from h2 h6 h7 u' t e d n iu ii a show ?thesis by blast
qed

theorem transform_index_range_counterexample:
  "feature_size (fst (fit (FeatureBuilder_init False False None None)
       ([] :: (string \<times> nat list) list) [(''a'', [1])] 1 None None)) = 1 \<and>
   snd (transform (fst (fit (FeatureBuilder_init False False None None)
       ([] :: (string \<times> nat list) list) [(''a'', [1])] 1 None None))
       [] [(''a'', [2]), (''b'', [3]), (''c'', [4])] 1 None None)
     = Inr ([[0, 1, 2]], [[2, 3, 4]])"
  by (simp add: fit_eval transform_eval)

subsection \<open>Vocabulary round-trip\<close>

text \<open>
  C4 (vocabulary round-trip). Let \<open>x\<close> occur in the \<open>i\<close>-th categorical column at
  \<open>fit\<close> (column names pairwise different) and let \<open>transform\<close> be called on the
  fitted builder with a categorical column of the same name that holds \<open>x\<close> in
  row \<open>r\<close>. Then the frozen vocabulary maps \<open>x\<close> to an index \<open>idx\<close>, this is the
  index \<open>fit\<close> put into its own index column in every training row holding
  \<open>x\<close>, the index column \<open>transform\<close> builds for the test column (lines 58-61)
  holds \<open>idx\<close> in row \<open>r\<close>, and so does the returned array whenever \<open>idx\<close> fits
  into 32 bits.
\<close>

theorem fit_transform_roundtrip:
  assumes dist: "distinct (map fst cats)"
    and i: "i < length cats" and x: "x \<in> set (snd (cats ! i))"
    and fitted: "self' = fst (fit self cats nums n uf itf)"
    and j: "j < length tcats" "fst (tcats ! j) = fst (cats ! i)"
    and r: "r < length (snd (tcats ! j))" "snd (tcats ! j) ! r = x"
  shows "\<exists>m idx. val_index_dict self' (fst (cats ! i)) = Some m \<and> m x = Some idx \<and>
     (\<forall>r0<length (snd (cats ! i)). snd (cats ! i) ! r0 = x \<longrightarrow>
        fst (snd (snd (fit_categorical n cats (int (length nums)) Map.empty gi gv))) ! (length gi + i) ! r0 = idx) \<and>
     fst (snd (transform_categorical ts (feature_size self') tcats (val_index_dict self') fi fv))
       ! (length fi + j) ! r = idx \<and>
     (\<forall>ti tv. snd (transform self' tcats tnums ts tuf titf) = Inr (ti, tv) \<and> idx < 2 ^ 31 \<longrightarrow>
        ti ! r ! (length tnums + j) = idx)"
proof -
  let ?v = "snd (cats ! i)"
  let ?off = "int (length nums) + (\<Sum>kv\<leftarrow>take i cats. int (card (set (snd kv))))"
  let ?m = "\<lambda>y. if y \<in> set ?v then Some (?off + int (card {z \<in> set ?v. z < y})) else None"
  let ?idx = "?off + int (card {z \<in> set ?v. z < x})"
  have voc: "val_index_dict self' (fst (cats ! i)) = Some ?m"
    unfolding fitted fit_val_index_dict by (rule fit_categorical_dict [OF dist i]) simp
  have mx: "?m x = Some ?idx" using x by simp
  have inv: "index_of (np_unique ?v) x = card {z \<in> set ?v. z < x}"
    using index_of_sorted_card [of "np_unique ?v" x] x by (simp add: np_unique_props)
  have fitcol: "\<forall>r0<length ?v. ?v ! r0 = x \<longrightarrow>
        fst (snd (snd (fit_categorical n cats (int (length nums)) Map.empty gi gv))) ! (length gi + i) ! r0 = ?idx"
    using inv by (simp add: fit_categorical_fi [OF i] unique_inverse_def)
  let ?col = "fillna (feature_size self')
      (series_map (defaultdict_get (val_index_dict self') (fst (tcats ! j))) (snd (tcats ! j)))"
  have colr: "?col ! r = ?idx"
    using r x voc j(2) by (simp add: fillna_def series_map_def defaultdict_get_def)
  have tcol: "fst (snd (transform_categorical ts (feature_size self') tcats (val_index_dict self') fi fv))
       ! (length fi + j) ! r = ?idx"
    using j(1) colr by (simp add: transform_categorical_eq nth_append)
  have out: "ti ! r ! (length tnums + j) = ?idx"
    if ret: "snd (transform self' tcats tnums ts tuf titf) = Inr (ti, tv)" and small: "?idx < 2 ^ 31"
    for ti tv
  proof -
    from transform_Inr [OF ret] obtain rows idcols where
      rows: "np_array_T (map (\<lambda>j. replicate (nat ts) (int j)) [0..<length tnums] @
                 map (\<lambda>kv. fillna (feature_size self')
                        (series_map (defaultdict_get (val_index_dict self') (fst kv)) (snd kv))) tcats @
                 idcols) = Inr rows"
      and ti: "ti = map (map astype_int32) rows"
      by blast
    let ?cols = "map (\<lambda>j. replicate (nat ts) (int j)) [0..<length tnums] @
                 map (\<lambda>kv. fillna (feature_size self')
                        (series_map (defaultdict_get (val_index_dict self') (fst kv)) (snd kv))) tcats @
                 idcols"
    have c: "length tnums + j < length ?cols" using j(1) by simp
    have colc: "?cols ! (length tnums + j) = ?col"
      using j(1) by (simp add: nth_append)
    have rlen: "r < length (?cols ! (length tnums + j))"
      unfolding colc using r(1) by (simp add: fillna_def series_map_def)
    from np_array_T_nth [OF rows c rlen]
    have "r < length rows" "length (rows ! r) = length ?cols"
      "rows ! r ! (length tnums + j) = ?idx"
      using colc colr by simp_all
    moreover have "0 \<le> (\<Sum>kv\<leftarrow>take i cats. int (card (set (snd kv))))"
      by (rule sum_list_nonneg) auto
    then have "astype_int32 ?idx = ?idx"
      using small by (intro astype_int32_id) auto
    ultimately show ?thesis
      unfolding ti using c by simp
  qed
  show ?thesis
    using voc mx fitcol tcol out by blast
qed

theorem fit_transform_roundtrip_witness:
  "distinct (map fst [(''city'', [20, 10, 20::nat])]) \<and>
   20 \<in> set (snd ([(''city'', [20, 10, 20::nat])] ! 0)) \<and>
   snd ([(''city'', [10, 20::nat])] ! 0) ! 1 = 20 \<and>
   snd (transform (fst (fit (FeatureBuilder_init False False None None)
          [(''city'', [20, 10, 20::nat])] [(''age'', [1, 2, 3])] 3 None None))
        [(''city'', [10, 20])] [(''age'', [5, 6])] 2 None None)
     = Inr ([[0, 1], [0, 2]], [[5, 1], [6, 1]]) \<and>
   (\<exists>m. val_index_dict (fst (fit (FeatureBuilder_init False False None None)
          [(''city'', [20, 10, 20::nat])] [(''age'', [1, 2, 3])] 3 None None)) ''city'' = Some m \<and>
        m 20 = Some ([[0, 1], [0, 2]] ! 1 ! (length [(''age'', [5, 6::real])] + 0)))"
proof -
  let ?cats = "[(''city'', [20, 10, 20::nat])]"
  let ?nums = "[(''age'', [1, 2, 3::real])]"
  let ?tcats = "[(''city'', [10, 20::nat])]"
  let ?tnums = "[(''age'', [5, 6::real])]"
  let ?b = "fst (fit (FeatureBuilder_init False False None None) ?cats ?nums 3 None None)"
  have h1: "distinct (map fst ?cats)" by simp
  have h2: "0 < length ?cats" by simp
  have h3: "20 \<in> set (snd (?cats ! 0))" by simp
  have h4: "?b = fst (fit (FeatureBuilder_init False False None None) ?cats ?nums 3 None None)"
    by (rule refl)
  have h5: "0 < length ?tcats" by simp
  have h6: "fst (?tcats ! 0) = fst (?cats ! 0)" by simp
  have h7: "1 < length (snd (?tcats ! 0))" by simp
  have h8: "snd (?tcats ! 0) ! 1 = 20" by simp
  have t: "snd (transform ?b ?tcats ?tnums 2 None None) = Inr ([[0, 1], [0, 2]], [[5, 1], [6, 1]])"
    by (simp add: fit_eval transform_eval)
  from fit_transform_roundtrip [where tnums = ?tnums and ts = 2 and tuf = None and titf = None
      and gi = "[]" and gv = "[]" and fi = "[]" and fv = "[]", OF h1 h2 h3 h4 h5 h6 h7 h8]
  obtain m idx where m: "val_index_dict ?b (fst (?cats ! 0)) = Some m" "m 20 = Some idx"
    and out: "\<forall>ti tv. snd (transform ?b ?tcats ?tnums 2 None None) = Inr (ti, tv) \<and> idx < 2 ^ 31 \<longrightarrow>
        ti ! 1 ! (length ?tnums + 0) = idx"
    by blast
  have "\<exists>m'. val_index_dict ?b ''city'' = Some m' \<and> m' 20 = Some 2"
    by (simp add: fit_eval)
  with m have idx: "idx = 2" by simp
  from out t idx have "[[0, 1], [0, 2::int]] ! 1 ! (length ?tnums + 0) = idx"
    by simp
  with m have "\<exists>m. val_index_dict ?b ''city'' = Some m \<and>
        m 20 = Some ([[0, 1], [0, 2]] ! 1 ! (length ?tnums + 0))"
    by simp
  with h1 h3 h8 t show ?thesis by blast
qed

subsection \<open>Index space coverage\<close>

text \<open>
  C5 (index space coverage). Whenever \<open>fit\<close> returns, the returned \<open>feature_size\<close>
  is the value stored in the builder and equals the number of numerical columns
  plus the sum over the categorical columns of the number of distinct values of
  each, plus \<open>n_users\<close> and \<open>n_items\<close> when the identity blocks are enabled. In
  particular 3 numerical columns and 2 categorical columns with 2 and 3
  distinct values, identity disabled, give 3 + 2 + 3 = 8.
\<close>

theorem fit_feature_size:
  assumes "snd (fit self cats nums train_size uf itf) = Inr (indices, values, fs)"
  shows "fs = feature_size (fst (fit self cats nums train_size uf itf)) \<and>
         (if include_user_item self
          then \<exists>nu ni. n_users self = Some nu \<and> n_items self = Some ni \<and>
                 fs = int (length nums) + (\<Sum>kv\<leftarrow>cats. int (card (set (snd kv)))) + nu + ni
          else fs = int (length nums) + (\<Sum>kv\<leftarrow>cats. int (card (set (snd kv))))) \<and>
         (length nums = 3 \<and> map (\<lambda>kv. card (set (snd kv))) cats = [2, 3] \<and>
            \<not> include_user_item self \<longrightarrow> fs = 8)"
proof -
  obtain tc0 fi0 fv0 where n: "fit_numerical train_size nums 0 [] [] = (tc0, fi0, fv0)"
    by (cases "fit_numerical train_size nums 0 [] []") auto
  obtain tc d fi fv where c: "fit_categorical train_size cats tc0 d0 fi0 fv0 = (tc, d, fi, fv)"
    if "d0 = Map.empty" for d0 :: "string \<rightharpoonup> ('a \<rightharpoonup> int)"
    by (cases "fit_categorical train_size cats tc0 (Map.empty :: string \<rightharpoonup> ('a \<rightharpoonup> int)) fi0 fv0") auto
  have tc0: "tc0 = int (length nums)"
    using n by (simp add: fit_numerical_eq)
  have tc: "tc = int (length nums) + (\<Sum>kv\<leftarrow>cats. int (card (set (snd kv))))"
    using fit_categorical_tc [of train_size cats tc0 Map.empty fi0 fv0] c tc0 by simp
  have main: "fs = feature_size (fst (fit self cats nums train_size uf itf)) \<and>
         (if include_user_item self
          then \<exists>nu ni. n_users self = Some nu \<and> n_items self = Some ni \<and>
                 fs = int (length nums) + (\<Sum>kv\<leftarrow>cats. int (card (set (snd kv)))) + nu + ni
          else fs = int (length nums) + (\<Sum>kv\<leftarrow>cats. int (card (set (snd kv)))))"
    using assms n c tc
    by (auto simp: fit_def Let_def split: if_splits option.splits dest!: fit_arrays_fs)
  have sc: "length nums = 3 \<and> map (\<lambda>kv. card (set (snd kv))) cats = [2, 3] \<and>
            \<not> include_user_item self \<longrightarrow> fs = 8"
  proof (intro impI, elim conjE)
    assume that: "length nums = 3" "map (\<lambda>kv. card (set (snd kv))) cats = [2, 3]"
      "\<not> include_user_item self"
    have "map (\<lambda>kv. int (card (set (snd kv)))) cats = map int (map (\<lambda>kv. card (set (snd kv))) cats)"
      by (simp add: comp_def)
    then have "(\<Sum>kv\<leftarrow>cats. int (card (set (snd kv)))) = 5"
      using that(2) by simp
    then show "fs = 8" using main that by simp
  qed
  show ?thesis
    by (rule conjI [OF conjunct1 [OF main] conjI [OF conjunct2 [OF main] sc]])
qed

theorem fit_feature_size_witness:
  "snd (fit (FeatureBuilder_init False True (Some 4) (Some 6))
          [(''colour'', [2, 1, 2::nat])] [(''price'', [1.5, 2, 3])] 3
          (Some [0, 3, 1]) (Some [5, 0, 2]))
     = Inr ([[0, 2, 3, 12], [0, 1, 6, 7], [0, 2, 4, 9]],
            [[3 / 2, 1, 1, 1], [2, 1, 1, 1], [3, 1, 1, 1]], 13) \<and>
   (13::int) = int (length [(''price'', [1.5::real, 2, 3])]) + int (card {2, 1::nat}) + 4 + 6"
proof -
  have h: "snd (fit (FeatureBuilder_init False True (Some 4) (Some 6))
          [(''colour'', [2, 1, 2::nat])] [(''price'', [1.5, 2, 3])] 3
          (Some [0, 3, 1]) (Some [5, 0, 2]))
     = Inr ([[0, 2, 3, 12], [0, 1, 6, 7], [0, 2, 4, 9]],
            [[3 / 2, 1, 1, 1], [2, 1, 1, 1], [3, 1, 1, 1]], 13)"
    by (simp add: fit_def FeatureBuilder_init_def Let_def np_unique_def unique_inverse_def
        fit_arrays_def np_array_T_def numeral_eq_Suc)
  show ?thesis
    using h fit_feature_size [OF h] by (simp add: FeatureBuilder_init_def)
qed

theorem fit_feature_size_scenario_counterexample:
  "snd (fit (FeatureBuilder_init False False None None)
          [(''c1'', [10, 20, 10::int]), (''c2'', [5, 4, 3])]
          [(''n1'', [0.5, 1.5, 2.5]), (''n2'', [1, 2, 3]), (''n3'', [7, 8, 9])] 3 None None)
     = Inr ([[0, 1, 2, 3, 7], [0, 1, 2, 4, 6], [0, 1, 2, 3, 5]],
            [[1 / 2, 1, 7, 1, 1], [3 / 2, 2, 8, 1, 1], [5 / 2, 3, 9, 1, 1]], 8) \<and>
   feature_size (fst (fit (FeatureBuilder_init False False None None)
          [(''c1'', [10, 20, 10::int]), (''c2'', [5, 4, 3])]
          [(''n1'', [0.5, 1.5, 2.5]), (''n2'', [1, 2, 3]), (''n3'', [7, 8, 9])] 3 None None)) \<noteq> 5"
  by (simp add: fit_def FeatureBuilder_init_def Let_def np_unique_def unique_inverse_def
      fit_arrays_def np_array_T_def numeral_eq_Suc)

subsection \<open>Label correctness\<close>

text \<open>
  C6 (label correctness). For \<open>num_neg \<ge> 0\<close> the label array is produced.
  Whenever \<open>_label_negative_sampling\<close> returns an array, it has length
  \<open>len(dataset) * (num_neg + 1)\<close> and holds 1 at every index \<open>k\<close> with
  \<open>k mod (num_neg + 1) = 0\<close> and 0 elsewhere; it is the label array an unshuffled
  \<open>__call__\<close> returns; and for \<open>num_neg = 2\<close> over 4 interactions it is
  \<open>[1,0,0,1,0,0,1,0,0,1,0,0]\<close>.
\<close>

theorem label_negative_sampling_correct:
  "(0 \<le> num_neg self \<longrightarrow> (\<exists>labels. label_negative_sampling self = Inr labels)) \<and>
   (\<forall>labels. label_negative_sampling self = Inr labels \<longrightarrow>
      int (length labels) = int (dataset_len (dataset self)) * (num_neg self + 1) \<and>
      (\<forall>k<length labels. labels ! k = (if int k mod (num_neg self + 1) = 0 then 1 else 0))) \<and>
   (\<forall>rng seed dense sparse dense_opt label.
      call rng self seed dense False = Some (Inr (sparse, dense_opt, label)) \<longrightarrow>
      label_negative_sampling self = Inr label) \<and>
   (num_neg self = 2 \<and> dataset_len (dataset self) = 4 \<longrightarrow>
      label_negative_sampling self = Inr [1, 0, 0, 1, 0, 0, 1, 0, 0, 1, 0, 0])"
  using label_negative_sampling_returns [of self] label_negative_sampling_Inr [of self]
    call_label_unshuffled [of _ self] label_scenario [of self]
  by blast

theorem label_negative_sampling_correct_witness:
  "num_neg (example_sampler\<lparr>dataset := example_dataset\<lparr>dataset_len := 4\<rparr>, num_neg := 2\<rparr>) = 2 \<and>
   dataset_len (dataset (example_sampler\<lparr>dataset := example_dataset\<lparr>dataset_len := 4\<rparr>, num_neg := 2\<rparr>)) = 4 \<and>
   label_negative_sampling (example_sampler\<lparr>dataset := example_dataset\<lparr>dataset_len := 4\<rparr>, num_neg := 2\<rparr>)
     = Inr [1, 0, 0, 1, 0, 0, 1, 0, 0, 1, 0, 0]"
proof -
  let ?s = "example_sampler\<lparr>dataset := example_dataset\<lparr>dataset_len := 4\<rparr>, num_neg := 2\<rparr>"
  have h: "num_neg ?s = 2 \<and> dataset_len (dataset ?s) = 4" by simp
  from label_negative_sampling_correct [of ?s]
  have "num_neg ?s = 2 \<and> dataset_len (dataset ?s) = 4 \<longrightarrow>
      label_negative_sampling ?s = Inr [1, 0, 0, 1, 0, 0, 1, 0, 0, 1, 0, 0]"
    by blast
  with h show ?thesis by blast
qed

subsection \<open>Column-order invariance\<close>

text \<open>
  C7 (column-order invariance). Let the user-side and the item-side column
  indices together be exactly the columns \<open>0, \<dots>, w - 1\<close> of the original
  sequence, split in any way. Then every row \<open>r\<close> the sparse path returns has
  \<open>w\<close> entries; at each user-side original column it holds what the dataset
  row \<open>r div (num_neg + 1)\<close> holds in that column, and at the original column of
  the \<open>q\<close>-th item-side column it holds the \<open>q\<close>-th attribute of the item
  emitted for row \<open>r\<close>. The same holds for the dense path.
\<close>

theorem column_order_restored:
  fixes self :: NegativeSamplingFeat
  defines "usc \<equiv> user_sparse_col (data_info self)" and "isc \<equiv> item_sparse_col (data_info self)"
    and "udc \<equiv> user_dense_col (data_info self)" and "idc \<equiv> item_dense_col (data_info self)"
    and "factor \<equiv> nat (num_neg self + 1)"
  shows "(sort (usc @ isc) = map int [0..<length (usc @ isc)] \<longrightarrow>
     (\<forall>items out. sparse_negative_sampling self items = Inr out \<longrightarrow>
        length out = length items \<and>
        (\<forall>r<length out.
           length (out ! r) = length (usc @ isc) \<and>
           (\<forall>p<length usc. out ! r ! nat (usc ! p) =
              sparse_indices (dataset self) ! (r div factor) ! nat (usc ! p)) \<and>
           (\<exists>item_row. np_index (item_sparse_unique (data_info self)) (items ! r) = Inr item_row \<and>
              (\<forall>q<length isc. out ! r ! nat (isc ! q) = item_row ! q))))) \<and>
    (sort (udc @ idc) = map int [0..<length (udc @ idc)] \<longrightarrow>
     (\<forall>items out. dense_negative_sampling self items = Inr out \<longrightarrow>
        length out = length items \<and>
        (\<forall>r<length out.
           length (out ! r) = length (udc @ idc) \<and>
           (\<forall>p<length udc. out ! r ! nat (udc ! p) =
              dense_values (dataset self) ! (r div factor) ! nat (udc ! p)) \<and>
           (\<exists>item_row. np_index (item_dense_unique (data_info self)) (items ! r) = Inr item_row \<and>
              (\<forall>q<length idc. out ! r ! nat (idc ! q) = item_row ! q)))))"
proof -
  have sparse: "length out = length items \<and>
        (\<forall>r<length out.
           length (out ! r) = length (usc @ isc) \<and>
           (\<forall>p<length usc. out ! r ! nat (usc ! p) =
              sparse_indices (dataset self) ! (r div factor) ! nat (usc ! p)) \<and>
           (\<exists>item_row. np_index (item_sparse_unique (data_info self)) (items ! r) = Inr item_row \<and>
              (\<forall>q<length isc. out ! r ! nat (isc ! q) = item_row ! q)))"
    if perm: "sort (usc @ isc) = map int [0..<length (usc @ isc)]"
      and ret: "sparse_negative_sampling self items = Inr out" for items out
  proof -
    from sparse_negative_sampling_Inr [OF ret] obtain urows usampled isampled where
      s: "np_take_cols (sparse_indices (dataset self)) usc = Inr urows"
        "np_repeat_rows urows (num_neg self + 1) = Inr usampled"
        "fancy_index (item_sparse_unique (data_info self)) items = Inr isampled"
        "length usampled = length isampled"
        "np_take_cols (np_concatenate_cols usampled isampled)
           (map int (map (\<lambda>j. [0..<length (usc @ isc)] ! j) (np_argsort (usc @ isc)))) = Inr out"
      unfolding usc_def isc_def by blast
    have len: "length out = length items"
    proof (cases "out = []")
      case True
      then have "length isampled = 0"
        using np_take_cols_Inr(1) [OF s(5)] s(4) by (simp add: np_concatenate_cols_nth)
      then show ?thesis using True fancy_index_Inr(1) [OF s(3)] by simp
    next
      case False
      then have "0 < length out" by simp
      from reindex_rows(1) [OF s perm this] show ?thesis .
    qed
    have row: "length (out ! r) = length (usc @ isc) \<and>
           (\<forall>p<length usc. out ! r ! nat (usc ! p) =
              sparse_indices (dataset self) ! (r div factor) ! nat (usc ! p)) \<and>
           (\<exists>item_row. np_index (item_sparse_unique (data_info self)) (items ! r) = Inr item_row \<and>
              (\<forall>q<length isc. out ! r ! nat (isc ! q) = item_row ! q))"
      if r: "r < length out" for r
    proof -
      note R = reindex_rows [OF s perm r]
      have "\<forall>p<length usc. out ! r ! nat (usc ! p) =
          sparse_indices (dataset self) ! (r div factor) ! nat (usc ! p)"
        using R(4) unfolding factor_def .
      moreover have "\<exists>item_row. np_index (item_sparse_unique (data_info self)) (items ! r) = Inr item_row \<and>
          (\<forall>q<length isc. out ! r ! nat (isc ! q) = item_row ! q)"
        using R(3,5) by blast
      ultimately show ?thesis using R(2) by blast
    qed
    from len row show ?thesis by blast
  qed
  have dense: "length out = length items \<and>
        (\<forall>r<length out.
           length (out ! r) = length (udc @ idc) \<and>
           (\<forall>p<length udc. out ! r ! nat (udc ! p) =
              dense_values (dataset self) ! (r div factor) ! nat (udc ! p)) \<and>
           (\<exists>item_row. np_index (item_dense_unique (data_info self)) (items ! r) = Inr item_row \<and>
              (\<forall>q<length idc. out ! r ! nat (idc ! q) = item_row ! q)))"
    if perm: "sort (udc @ idc) = map int [0..<length (udc @ idc)]"
      and ret: "dense_negative_sampling self items = Inr out" for items out
  proof -
    from dense_negative_sampling_Inr [OF ret] obtain urows usampled isampled where
      s: "np_take_cols (dense_values (dataset self)) udc = Inr urows"
        "np_repeat_rows urows (num_neg self + 1) = Inr usampled"
        "fancy_index (item_dense_unique (data_info self)) items = Inr isampled"
        "length usampled = length isampled"
        "np_take_cols (np_concatenate_cols usampled isampled)
           (map int (map (\<lambda>j. [0..<length (udc @ idc)] ! j) (np_argsort (udc @ idc)))) = Inr out"
      unfolding udc_def idc_def by blast
    have len: "length out = length items"
    proof (cases "out = []")
      case True
      then have "length isampled = 0"
        using np_take_cols_Inr(1) [OF s(5)] s(4) by (simp add: np_concatenate_cols_nth)
      then show ?thesis using True fancy_index_Inr(1) [OF s(3)] by simp
    next
      case False
      then have "0 < length out" by simp
      from reindex_rows(1) [OF s perm this] show ?thesis .
    qed
    have row: "length (out ! r) = length (udc @ idc) \<and>
           (\<forall>p<length udc. out ! r ! nat (udc ! p) =
              dense_values (dataset self) ! (r div factor) ! nat (udc ! p)) \<and>
           (\<exists>item_row. np_index (item_dense_unique (data_info self)) (items ! r) = Inr item_row \<and>
              (\<forall>q<length idc. out ! r ! nat (idc ! q) = item_row ! q))"
      if r: "r < length out" for r
    proof -
      note R = reindex_rows [OF s perm r]
      have "\<forall>p<length udc. out ! r ! nat (udc ! p) =
          dense_values (dataset self) ! (r div factor) ! nat (udc ! p)"
        using R(4) unfolding factor_def .
      moreover have "\<exists>item_row. np_index (item_dense_unique (data_info self)) (items ! r) = Inr item_row \<and>
          (\<forall>q<length idc. out ! r ! nat (idc ! q) = item_row ! q)"
        using R(3,5) by blast
      ultimately show ?thesis using R(2) by blast
    qed
    from len row show ?thesis by blast
  qed
  from sparse dense show ?thesis by blast
qed

theorem column_order_restored_witness:
  "sort (user_sparse_col (data_info example_sampler) @ item_sparse_col (data_info example_sampler)) =
     map int [0..<2] \<and>
   sort (user_dense_col (data_info example_sampler) @ item_dense_col (data_info example_sampler)) =
     map int [0..<2] \<and>
   sparse_negative_sampling example_sampler [1, 2, 0, 2] =
     Inr [[31, 10], [32, 10], [30, 11], [32, 11]] \<and>
   dense_negative_sampling example_sampler [1, 2, 0, 2] =
     Inr [[0.5, 7], [0.5, 8], [1.5, 6], [1.5, 8]] \<and>
   [[31, 10], [32, 10], [30, 11], [32, 11]] ! 3 ! nat (user_sparse_col (data_info example_sampler) ! 0) =
     sparse_indices (dataset example_sampler) ! (3 div nat (num_neg example_sampler + 1)) !
       nat (user_sparse_col (data_info example_sampler) ! 0) \<and>
   [[0.5, 7], [0.5, 8], [1.5, 6], [1.5, 8]] ! 3 ! nat (user_dense_col (data_info example_sampler) ! 0) =
     dense_values (dataset example_sampler) ! (3 div nat (num_neg example_sampler + 1)) !
       nat (user_dense_col (data_info example_sampler) ! 0)"
proof -
  let ?usc = "user_sparse_col (data_info example_sampler)"
  let ?isc = "item_sparse_col (data_info example_sampler)"
  let ?udc = "user_dense_col (data_info example_sampler)"
  let ?idc = "item_dense_col (data_info example_sampler)"
  have h1: "sort (?usc @ ?isc) = map int [0..<length (?usc @ ?isc)]"
    by (simp add: example_defs)
  have h2: "sort (?udc @ ?idc) = map int [0..<length (?udc @ ?idc)]"
    by (simp add: example_defs)
  have l: "length (?usc @ ?isc) = 2" "length (?udc @ ?idc) = 2" "0 < length ?usc" "0 < length ?udc"
    by (simp_all add: example_defs)
  note T = column_order_restored [of example_sampler]
  from T h1 example_sparse have
    "\<forall>r<length [[31, 10], [32, 10], [30, 11], [32, 11::int]].
       length ([[31, 10], [32, 10], [30, 11], [32, 11::int]] ! r) = length (?usc @ ?isc) \<and>
       (\<forall>p<length ?usc. [[31, 10], [32, 10], [30, 11], [32, 11]] ! r ! nat (?usc ! p) =
          sparse_indices (dataset example_sampler) ! (r div nat (num_neg example_sampler + 1)) ! nat (?usc ! p)) \<and>
       (\<exists>item_row. np_index (item_sparse_unique (data_info example_sampler)) ([1, 2, 0, 2] ! r) = Inr item_row \<and>
          (\<forall>q<length ?isc. [[31, 10], [32, 10], [30, 11], [32, 11]] ! r ! nat (?isc ! q) = item_row ! q))"
    by blast
  from this [rule_format, of 3] l(3) have
    s: "[[31, 10], [32, 10], [30, 11], [32, 11]] ! 3 ! nat (?usc ! 0) =
          sparse_indices (dataset example_sampler) ! (3 div nat (num_neg example_sampler + 1)) ! nat (?usc ! 0)"
    by simp
  from T h2 example_dense have
    "\<forall>r<length [[0.5, 7], [0.5, 8], [1.5, 6], [1.5, 8::real]].
       length ([[0.5, 7], [0.5, 8], [1.5, 6], [1.5, 8::real]] ! r) = length (?udc @ ?idc) \<and>
       (\<forall>p<length ?udc. [[0.5, 7], [0.5, 8], [1.5, 6], [1.5, 8]] ! r ! nat (?udc ! p) =
          dense_values (dataset example_sampler) ! (r div nat (num_neg example_sampler + 1)) ! nat (?udc ! p)) \<and>
       (\<exists>item_row. np_index (item_dense_unique (data_info example_sampler)) ([1, 2, 0, 2] ! r) = Inr item_row \<and>
          (\<forall>q<length ?idc. [[0.5, 7], [0.5, 8], [1.5, 6], [1.5, 8]] ! r ! nat (?idc ! q) = item_row ! q))"
    by blast
  from this [rule_format, of 3] l(4) have
    d: "[[0.5, 7], [0.5, 8], [1.5, 6], [1.5, 8]] ! 3 ! nat (?udc ! 0) =
          dense_values (dataset example_sampler) ! (3 div nat (num_neg example_sampler + 1)) ! nat (?udc ! 0)"
    by simp
  from h1 h2 l example_sparse example_dense s d show ?thesis by simp
qed

subsection \<open>Determinism of fit\<close>

text \<open>
  C8 (determinism). Calling \<open>fit\<close> again, with the same inputs, on the builder the
  first call left behind gives the same result and the same builder, and any
  two builders with the same \<open>include_user_item\<close>, \<open>n_users\<close> and \<open>n_items\<close> give
  the same result, vocabularies and \<open>feature_size\<close>: nothing \<open>fit\<close> computes
  depends on what the builder held before. With pairwise
  different column names, the vocabulary of the \<open>i\<close>-th categorical column has
  exactly the distinct values of that column as keys and maps a value \<open>x\<close> to
  (number of numerical columns) + (number of distinct values of the earlier
  categorical columns) + (number of distinct values of the column below \<open>x\<close>),
  that is, to consecutive indices in ascending order of the value.
\<close>

theorem fit_deterministic:
  assumes "distinct (map fst cats)"
  shows "fit (fst (fit self cats nums n uf itf)) cats nums n uf itf = fit self cats nums n uf itf \<and>
    (\<forall>self2. include_user_item self2 = include_user_item self \<and> n_users self2 = n_users self \<and>
       n_items self2 = n_items self \<longrightarrow>
       snd (fit self2 cats nums n uf itf) = snd (fit self cats nums n uf itf) \<and>
       val_index_dict (fst (fit self2 cats nums n uf itf)) =
         val_index_dict (fst (fit self cats nums n uf itf)) \<and>
       feature_size (fst (fit self2 cats nums n uf itf)) =
         feature_size (fst (fit self cats nums n uf itf))) \<and>
    (\<forall>i<length cats. \<exists>m.
       val_index_dict (fst (fit self cats nums n uf itf)) (fst (cats ! i)) = Some m \<and>
       dom m = set (snd (cats ! i)) \<and>
       (\<forall>x\<in>set (snd (cats ! i)).
          m x = Some (int (length nums) + (\<Sum>kv\<leftarrow>take i cats. int (card (set (snd kv)))) +
                      int (card {y \<in> set (snd (cats ! i)). y < x}))))"
proof (intro conjI allI impI)
  show "fit (fst (fit self cats nums n uf itf)) cats nums n uf itf = fit self cats nums n uf itf"
    by (rule fit_again)
next
  fix self2 :: "'a FeatureBuilder"
  assume "include_user_item self2 = include_user_item self \<and> n_users self2 = n_users self \<and>
       n_items self2 = n_items self"
  then have c: "include_user_item self2 = include_user_item self" "n_users self2 = n_users self"
    "n_items self2 = n_items self" by simp_all
  show "snd (fit self2 cats nums n uf itf) = snd (fit self cats nums n uf itf)"
    by (rule fit_independent_of_state(1) [OF c])
  show "val_index_dict (fst (fit self2 cats nums n uf itf)) =
         val_index_dict (fst (fit self cats nums n uf itf))"
    by (rule fit_independent_of_state(2) [OF c])
  show "feature_size (fst (fit self2 cats nums n uf itf)) =
         feature_size (fst (fit self cats nums n uf itf))"
    by (rule fit_independent_of_state(3) [OF c])
next
  fix i assume i: "i < length cats"
  let ?m = "\<lambda>x. if x \<in> set (snd (cats ! i))
                then Some (int (length nums) + (\<Sum>kv\<leftarrow>take i cats. int (card (set (snd kv)))) +
                           int (card {y \<in> set (snd (cats ! i)). y < x}))
                else None"
  have "val_index_dict (fst (fit self cats nums n uf itf)) (fst (cats ! i)) = Some ?m"
    unfolding fit_val_index_dict by (rule fit_categorical_dict [OF assms i]) simp
  moreover have "dom ?m = set (snd (cats ! i))"
    by (auto simp: dom_def)
  ultimately show "\<exists>m. val_index_dict (fst (fit self cats nums n uf itf)) (fst (cats ! i)) = Some m \<and>
       dom m = set (snd (cats ! i)) \<and>
       (\<forall>x\<in>set (snd (cats ! i)).
          m x = Some (int (length nums) + (\<Sum>kv\<leftarrow>take i cats. int (card (set (snd kv)))) +
                      int (card {y \<in> set (snd (cats ! i)). y < x})))"
    by (intro exI [of _ ?m]) simp
qed

theorem fit_deterministic_witness:
  "distinct (map fst [(''a'', [3, 2, 3::nat]), (''b'', [7, 5, 5])]) \<and>
   (\<exists>m. val_index_dict (fst (fit (FeatureBuilder_init False False None None)
            [(''a'', [3, 2, 3::nat]), (''b'', [7, 5, 5])] [(''p'', [1, 2, 3])] 3 None None)) ''b'' = Some m \<and>
        dom m = {5, 7} \<and> m 5 = Some 3 \<and> m 7 = Some 4)"
proof -
  let ?cats = "[(''a'', [3, 2, 3::nat]), (''b'', [7, 5, 5])]"
  have h: "distinct (map fst ?cats)" by simp
  from fit_deterministic [OF h, of "FeatureBuilder_init False False None None" "[(''p'', [1, 2, 3])]" 3 None None]
  have "\<forall>i<length ?cats. \<exists>m.
       val_index_dict (fst (fit (FeatureBuilder_init False False None None) ?cats [(''p'', [1, 2, 3])] 3 None None))
         (fst (?cats ! i)) = Some m \<and>
       dom m = set (snd (?cats ! i)) \<and>
       (\<forall>x\<in>set (snd (?cats ! i)).
          m x = Some (int (length [(''p'', [1, 2, 3::real])]) + (\<Sum>kv\<leftarrow>take i ?cats. int (card (set (snd kv)))) +
                      int (card {y \<in> set (snd (?cats ! i)). y < x})))"
    by blast
  from this [rule_format, of 1]
  have "\<exists>m.
       val_index_dict (fst (fit (FeatureBuilder_init False False None None) ?cats [(''p'', [1, 2, 3])] 3 None None))
         (fst (?cats ! 1)) = Some m \<and>
       dom m = set (snd (?cats ! 1)) \<and>
       (\<forall>x\<in>set (snd (?cats ! 1)).
          m x = Some (int (length [(''p'', [1, 2, 3::real])]) + (\<Sum>kv\<leftarrow>take 1 ?cats. int (card (set (snd kv)))) +
                      int (card {y \<in> set (snd (?cats ! 1)). y < x})))"
    by simp
  then show ?thesis
    by (simp add: insert_commute conj_disj_distribR Collect_disj_eq Collect_conv_if)
qed

subsection \<open>Column names at transform\<close>




subsection \<open>Frame condition of transform\<close>

text \<open>
  C10 (frame condition of \<open>transform\<close>, as the code has it). \<open>transform\<close> leaves
  \<open>total_count\<close>, \<open>feature_size\<close>, \<open>n_users\<close> and \<open>n_items\<close> as they were. In
  \<open>val_index_dict\<close> every entry present before the call is unchanged, and every
  categorical column name of the call that was absent is inserted with an
  empty vocabulary (the \<open>defaultdict\<close> read); the builder is unchanged when all
  categorical column names of the call were seen at \<open>fit\<close>. What a later
  \<open>transform\<close> call returns is never affected by an earlier one, so repeated
  calls with identical inputs return identical outputs.
\<close>

theorem transform_frame:
  "total_count (fst (transform self tcats tnums ts tuf titf)) = total_count self \<and>
   feature_size (fst (transform self tcats tnums ts tuf titf)) = feature_size self \<and>
   n_users (fst (transform self tcats tnums ts tuf titf)) = n_users self \<and>
   n_items (fst (transform self tcats tnums ts tuf titf)) = n_items self \<and>
   (\<forall>k. val_index_dict (fst (transform self tcats tnums ts tuf titf)) k =
      (if k \<in> fst ` set tcats \<and> val_index_dict self k = None then Some Map.empty
       else val_index_dict self k)) \<and>
   (fst ` set tcats \<subseteq> dom (val_index_dict self) \<longrightarrow>
      fst (transform self tcats tnums ts tuf titf) = self) \<and>
   snd (transform (fst (transform self tcats tnums ts tuf titf)) tcats2 tnums2 ts2 tuf2 titf2) =
     snd (transform self tcats2 tnums2 ts2 tuf2 titf2)"
proof -
  have "fst (transform self tcats tnums ts tuf titf) = self"
    if "fst ` set tcats \<subseteq> dom (val_index_dict self)"
  proof -
    have "(\<lambda>k. if k \<in> fst ` set tcats \<and> val_index_dict self k = None then Some Map.empty
               else val_index_dict self k) = val_index_dict self"
      using that by (intro ext) auto
    then show ?thesis unfolding transform_state by simp
  qed
  then show ?thesis
    using transform_after_transform [of self tcats tnums ts tuf titf]
    by (simp add: transform_state)
qed

theorem transform_frame_witness:
  "fst ` set [(''city'', [2, 9::nat])] \<subseteq> dom (val_index_dict
       (fst (fit (FeatureBuilder_init False False None None)
          [(''city'', [1, 2::nat])] [(''age'', [30, 40])] 2 None None))) \<and>
   fst (transform (fst (fit (FeatureBuilder_init False False None None)
          [(''city'', [1, 2::nat])] [(''age'', [30, 40])] 2 None None))
          [(''city'', [2, 9])] [(''age'', [35, 36])] 2 None None) =
   fst (fit (FeatureBuilder_init False False None None)
          [(''city'', [1, 2::nat])] [(''age'', [30, 40])] 2 None None)"
proof -
  let ?b = "fst (fit (FeatureBuilder_init False False None None)
          [(''city'', [1, 2::nat])] [(''age'', [30, 40])] 2 None None)"
  have h: "fst ` set [(''city'', [2, 9::nat])] \<subseteq> dom (val_index_dict ?b)"
    by (simp add: fit_eval)
  from transform_frame [of ?b "[(''city'', [2, 9])]" "[(''age'', [35, 36])]" 2 None None]
  have "fst ` set [(''city'', [2, 9::nat])] \<subseteq> dom (val_index_dict ?b) \<longrightarrow>
      fst (transform ?b [(''city'', [2, 9])] [(''age'', [35, 36])] 2 None None) = ?b"
    by blast
  with h show ?thesis by blast
qed

theorem transform_frame_counterexample:
  "val_index_dict (fst (fit (FeatureBuilder_init False False None None)
       [(''city'', [1, 2::nat])] [(''age'', [30, 40])] 2 None None)) ''country'' = None \<and>
   val_index_dict (fst (transform (fst (fit (FeatureBuilder_init False False None None)
       [(''city'', [1, 2::nat])] [(''age'', [30, 40])] 2 None None))
       [(''country'', [1])] [(''age'', [35])] 1 None None)) ''country'' = Some Map.empty"
  by (simp add: fit_eval transform_eval)

end
